theory Spec2Isabelle
  imports Complex_Main "HOL-Library.While_Combinator"
begin

section \<open>The temporal graph (totg\_core\_fixed.py)\<close>

text \<open>
  Timestamps are naive UTC \<^verbatim>\<open>datetime\<close> values (the API layer strips every time zone
  before it builds a node). A timestamp is the integer number of microseconds since the
  epoch, and \<^verbatim>\<open>timedelta(days=d)\<close> is \<open>d * 86400000000\<close>. The calendar range of
  \<^verbatim>\<open>datetime\<close> (years 1 to 9999) is not represented: the integers are unbounded.
\<close>

type_synonym datetime = int

definition timedelta_days :: "int \<Rightarrow> int" where
  "timedelta_days d = d * 86400000000"

datatype NodeType = CONTENT | BRANCH_POINT | MERGE_POINT | MEMORY_COMPRESSED

datatype TemporalRelation = SEQUENTIAL | CAUSAL | CONCURRENT | BRANCH | MERGE

datatype py_error = KeyError | AttributeError | ValueError

text \<open>
  \<^verbatim>\<open>TemporalNode\<close>. The field \<^verbatim>\<open>id\<close> is called \<open>node_id\<close>; the label
  \<^verbatim>\<open>layer_<n>\<close> of a weekly layer is represented by the number \<open>n\<close>.
\<close>

record TemporalNode =
  node_id :: string
  timestamp :: datetime
  node_type :: NodeType
  content :: string
  metadata :: "(string \<times> string) list"
  temporal_index :: int
  layer_id :: int

definition compute_layer_id :: "datetime \<Rightarrow> int" where
  "compute_layer_id ts = (ts div 86400000000) div 7"

record TemporalEdge =
  from_node :: string
  to_node :: string
  relation :: TemporalRelation
  weight :: real
  edge_metadata :: "(string \<times> string) list"

record Stats =
  nodes_created :: int
  edges_created :: int
  layers_created :: int
  traversals_performed :: int

text \<open>
  \<^verbatim>\<open>TemporalGraph\<close>: the dictionaries \<^verbatim>\<open>nodes\<close>, \<^verbatim>\<open>edges\<close> and \<^verbatim>\<open>reverse_edges\<close> are
  maps; the last two are \<^verbatim>\<open>defaultdict(list)\<close>, so a missing key reads as the empty
  list. \<^verbatim>\<open>layers\<close>, whose length \<^verbatim>\<open>add_node\<close> reads, is an association list with one
  entry for each key.
\<close>

record TemporalGraph =
  layer_duration_days :: int
  nodes :: "string \<rightharpoonup> TemporalNode"
  edges :: "string \<rightharpoonup> TemporalEdge list"
  reverse_edges :: "string \<rightharpoonup> TemporalEdge list"
  timestamp_index :: "(datetime \<times> string) list"
  layers :: "(int \<times> string list) list"
  stats :: Stats

definition new_graph :: TemporalGraph where
  "new_graph = \<lparr> layer_duration_days = 7, nodes = Map.empty, edges = Map.empty,
     reverse_edges = Map.empty, timestamp_index = [], layers = [],
     stats = \<lparr> nodes_created = 0, edges_created = 0, layers_created = 0,
               traversals_performed = 0 \<rparr> \<rparr>"

text \<open>\<^verbatim>\<open>d.get(k, [])\<close> and \<^verbatim>\<open>d[k].append(x)\<close> on a \<^verbatim>\<open>defaultdict(list)\<close>.\<close>

definition get_list :: "('k \<rightharpoonup> 'v list) \<Rightarrow> 'k \<Rightarrow> 'v list" where
  "get_list d k = (case d k of None \<Rightarrow> [] | Some xs \<Rightarrow> xs)"

definition append_to :: "('k \<rightharpoonup> 'v list) \<Rightarrow> 'k \<Rightarrow> 'v \<Rightarrow> ('k \<rightharpoonup> 'v list)" where
  "append_to d k x = d(k \<mapsto> get_list d k @ [x])"

subsection \<open>The sorted timestamp index\<close>

text \<open>
  The index holds \<^verbatim>\<open>(timestamp, id)\<close> tuples. Python compares tuples lexicographically
  and strings by code point, a proper prefix being smaller. An id is a \<open>string\<close>, so its
  characters have the codes 0 to 255; Python's code points above 255 have no counterpart.
\<close>

fun str_less :: "string \<Rightarrow> string \<Rightarrow> bool" where
  "str_less [] [] = False"
| "str_less [] (y # ys) = True"
| "str_less (x # xs) [] = False"
| "str_less (x # xs) (y # ys) =
     ((of_char x :: nat) < of_char y \<or> (x = y \<and> str_less xs ys))"

definition tuple_less :: "datetime \<times> string \<Rightarrow> datetime \<times> string \<Rightarrow> bool" where
  "tuple_less a b = (fst a < fst b \<or> (fst a = fst b \<and> str_less (snd a) (snd b)))"

text \<open>
  \<^verbatim>\<open>bisect_left\<close> and \<^verbatim>\<open>bisect_right\<close> are given by the positions their binary search
  finds in a sorted list: the number of leading entries below \<open>x\<close>, and the number of
  leading entries not above \<open>x\<close>. \<^verbatim>\<open>insort\<close> inserts at \<^verbatim>\<open>bisect_right\<close>.
\<close>

definition bisect_left :: "(datetime \<times> string) list \<Rightarrow> datetime \<times> string \<Rightarrow> nat" where
  "bisect_left a x = length (takeWhile (\<lambda>y. tuple_less y x) a)"

definition bisect_right :: "(datetime \<times> string) list \<Rightarrow> datetime \<times> string \<Rightarrow> nat" where
  "bisect_right a x = length (takeWhile (\<lambda>y. \<not> tuple_less x y) a)"

definition insort_index :: "(datetime \<times> string) list \<Rightarrow> datetime \<times> string \<Rightarrow> (datetime \<times> string) list" where
  "insort_index a x = take (bisect_right a x) a @ [x] @ drop (bisect_right a x) a"

subsection \<open>add\_node\<close>

text \<open>\<^verbatim>\<open>self.layers[k].append(x)\<close>: the entry of \<open>k\<close> is extended where it stands, a new
  key goes to the end.\<close>

fun layers_append :: "(int \<times> string list) list \<Rightarrow> int \<Rightarrow> string \<Rightarrow> (int \<times> string list) list" where
  "layers_append [] k x = [(k, [x])]"
| "layers_append ((k', xs) # ls) k x =
     (if k' = k then (k', xs @ [x]) # ls else (k', xs) # layers_append ls k x)"

text \<open>
  \<^verbatim>\<open>add_node\<close> returns its boolean and the graph after the call. The node is stored
  before its \<^verbatim>\<open>temporal_index\<close> is assigned, but it is the same object, so the stored
  node carries the assigned index. With naive timestamps nothing in the \<^verbatim>\<open>try\<close> block
  raises.
\<close>

definition add_node :: "TemporalGraph \<Rightarrow> TemporalNode \<Rightarrow> bool \<times> TemporalGraph" where
  "add_node g node =
     (let index = insort_index (timestamp_index g) (timestamp node, node_id node);
          node' = node\<lparr> temporal_index := int (length index) - 1 \<rparr>;
          layers' = layers_append (layers g) (layer_id node) (node_id node)
      in (True,
          g\<lparr> nodes := (nodes g)(node_id node \<mapsto> node'),
             timestamp_index := index,
             layers := layers',
             stats := (stats g)\<lparr> nodes_created := nodes_created (stats g) + 1,
                                  layers_created := int (length layers') \<rparr> \<rparr>))"

text \<open>\<^verbatim>\<open>get_nodes_in_timerange\<close>, with the two sentinel ids of the source: the empty string
  and one hundred characters of code 255.\<close>

definition get_nodes_in_timerange :: "TemporalGraph \<Rightarrow> datetime \<Rightarrow> datetime \<Rightarrow> string list" where
  "get_nodes_in_timerange g start_time end_time =
     (let start_pos = bisect_left (timestamp_index g) (start_time, '''');
          end_pos = bisect_right (timestamp_index g) (end_time, replicate 100 (CHR 0xFF))
      in map (\<lambda>i. snd (timestamp_index g ! i)) [start_pos ..< end_pos])"

subsection \<open>add\_edge\<close>

text \<open>
  \<^verbatim>\<open>add_edge\<close> returns its boolean, the graph after the call and the lines it printed.
  Nothing inside its \<^verbatim>\<open>try\<close> block can raise on naive timestamps, so the
  \<^verbatim>\<open>except\<close> branch is unreachable and has no counterpart here.
\<close>

definition add_edge :: "TemporalGraph \<Rightarrow> TemporalEdge \<Rightarrow> bool \<times> TemporalGraph \<times> string list" where
  "add_edge g edge =
     (case (nodes g (from_node edge), nodes g (to_node edge)) of
        (Some fromN, Some toN) \<Rightarrow>
          (True,
           g\<lparr> edges := append_to (edges g) (from_node edge) edge,
              reverse_edges := append_to (reverse_edges g) (to_node edge) edge,
              stats := (stats g)\<lparr> edges_created := edges_created (stats g) + 1 \<rparr> \<rparr>,
           if relation edge \<in> {SEQUENTIAL, CAUSAL} \<and> timestamp fromN > timestamp toN
           then [''Warning: temporal edge goes backward in time''] else [])
      | _ \<Rightarrow>
          (False, g,
           [''Cannot create edge: missing nodes '' @ from_node edge @ '' -> '' @ to_node edge]))"

subsection \<open>Breadth-first traversals\<close>

text \<open>
  A traversal state is the visited set and the queue. The visited set is kept as the list
  of its members in the order they were added; the queue holds (id, hop count) pairs.
  Each \<^verbatim>\<open>while queue:\<close> loop is \<open>while_option\<close> over one function for the loop body,
  so a loop that did not stop would have the value \<open>None\<close>.
\<close>

type_synonym bfs_state = "string list \<times> (string \<times> int) list"

definition queue_nonempty :: "bfs_state \<Rightarrow> bool" where
  "queue_nonempty s = (snd s \<noteq> [])"

definition bfs_forward_step :: "TemporalGraph \<Rightarrow> int \<Rightarrow> datetime \<Rightarrow> bfs_state \<Rightarrow> bfs_state" where
  "bfs_forward_step g max_hops end_time s =
     (case s of
        (visited, []) \<Rightarrow> s
      | (visited, (current_id, hops) # rest) \<Rightarrow>
          if current_id \<in> set visited \<or> hops > max_hops then (visited, rest)
          else if (case nodes g current_id of
                     Some current_node \<Rightarrow> timestamp current_node > end_time
                   | None \<Rightarrow> False)
          then (visited @ [current_id], rest)
          else (visited @ [current_id],
                rest @ map (\<lambda>e. (to_node e, hops + 1))
                         (filter (\<lambda>e. to_node e \<notin> set (visited @ [current_id]))
                                 (get_list (edges g) current_id))))"

definition bfs_forward :: "TemporalGraph \<Rightarrow> string \<Rightarrow> int \<Rightarrow> datetime \<Rightarrow> string list option" where
  "bfs_forward g start_node max_hops end_time =
     map_option fst
       (while_option queue_nonempty (bfs_forward_step g max_hops end_time)
          ([], [(start_node, 0)]))"

definition bfs_backward_step :: "TemporalGraph \<Rightarrow> int \<Rightarrow> datetime \<Rightarrow> bfs_state \<Rightarrow> bfs_state" where
  "bfs_backward_step g max_hops start_time s =
     (case s of
        (visited, []) \<Rightarrow> s
      | (visited, (current_id, hops) # rest) \<Rightarrow>
          if current_id \<in> set visited \<or> hops > max_hops then (visited, rest)
          else if (case nodes g current_id of
                     Some current_node \<Rightarrow> timestamp current_node < start_time
                   | None \<Rightarrow> False)
          then (visited @ [current_id], rest)
          else (visited @ [current_id],
                rest @ map (\<lambda>e. (from_node e, hops + 1))
                         (filter (\<lambda>e. from_node e \<notin> set (visited @ [current_id]))
                                 (get_list (reverse_edges g) current_id))))"

definition bfs_backward :: "TemporalGraph \<Rightarrow> string \<Rightarrow> int \<Rightarrow> datetime \<Rightarrow> string list option" where
  "bfs_backward g target_node max_hops start_time =
     map_option fst
       (while_option queue_nonempty (bfs_backward_step g max_hops start_time)
          ([], [(target_node, 0)]))"

subsection \<open>get\_forward\_nodes and get\_backward\_nodes\<close>

text \<open>
  The filter loop over the reached ids: \<^verbatim>\<open>self.nodes[reached_id]\<close> raises
  \<^verbatim>\<open>KeyError\<close> for an id that is not a node. The kept ids are paired with their
  timestamps, which are the sort keys afterwards.
\<close>

fun filter_reached ::
  "TemporalGraph \<Rightarrow> string \<Rightarrow> (datetime \<Rightarrow> bool) \<Rightarrow> string list \<Rightarrow> py_error + (datetime \<times> string) list" where
  "filter_reached g nid keep [] = Inr []"
| "filter_reached g nid keep (reached_id # others) =
     (if reached_id = nid then filter_reached g nid keep others
      else case nodes g reached_id of
             None \<Rightarrow> Inl KeyError
           | Some reached_node \<Rightarrow>
               (case filter_reached g nid keep others of
                  Inl e \<Rightarrow> Inl e
                | Inr kept \<Rightarrow>
                    Inr (if keep (timestamp reached_node)
                         then (timestamp reached_node, reached_id) # kept else kept)))"

text \<open>
  \<^verbatim>\<open>list.sort(key=...)\<close> is stable, and so is \<open>sort_key\<close>; with \<^verbatim>\<open>reverse=True\<close>
  the list is reversed, sorted and reversed again, which keeps equal keys in their
  original order. \<^verbatim>\<open>xs[:n]\<close> with a negative \<open>n\<close> drops the last \<open>-n\<close> elements.
\<close>

definition sort_by_timestamp :: "(datetime \<times> string) list \<Rightarrow> (datetime \<times> string) list" where
  "sort_by_timestamp xs = sort_key fst xs"

definition sort_by_timestamp_reverse :: "(datetime \<times> string) list \<Rightarrow> (datetime \<times> string) list" where
  "sort_by_timestamp_reverse xs = rev (sort_key fst (rev xs))"

definition slice_to :: "'a list \<Rightarrow> int \<Rightarrow> 'a list" where
  "slice_to xs n = (if 0 \<le> n then take (nat n) xs else take (length xs - nat (- n)) xs)"

text \<open>
  Python does not fix the order in which \<^verbatim>\<open>for reached_id in reachable\<close> goes through
  the set. That order is the parameter \<open>iter\<close>, a function from the members in insertion
  order to the order of iteration; the theorems below assume only that it is a
  rearrangement. The result is \<open>None\<close> if the traversal does not return. The counter
  \<^verbatim>\<open>stats['traversals_performed']\<close> that a query increments is read by none of the
  operations here and is not part of the result.
\<close>

definition get_forward_nodes ::
  "(string list \<Rightarrow> string list) \<Rightarrow> TemporalGraph \<Rightarrow> string \<Rightarrow> int \<Rightarrow> int \<Rightarrow> int
     \<Rightarrow> (py_error + string list) option" where
  "get_forward_nodes iter g nid time_window_days max_hops max_results =
     (case nodes g nid of
        None \<Rightarrow> Some (Inr [])
      | Some source_node \<Rightarrow>
          (let end_time = timestamp source_node + timedelta_days time_window_days in
           case bfs_forward g nid max_hops end_time of
             None \<Rightarrow> None
           | Some reachable \<Rightarrow>
               Some (case filter_reached g nid
                            (\<lambda>t. timestamp source_node < t \<and> t \<le> end_time) (iter reachable) of
                       Inl e \<Rightarrow> Inl e
                     | Inr future_nodes \<Rightarrow>
                         Inr (slice_to (map snd (sort_by_timestamp future_nodes)) max_results))))"

definition get_backward_nodes ::
  "(string list \<Rightarrow> string list) \<Rightarrow> TemporalGraph \<Rightarrow> string \<Rightarrow> int \<Rightarrow> int \<Rightarrow> int
     \<Rightarrow> (py_error + string list) option" where
  "get_backward_nodes iter g nid time_window_days max_hops max_results =
     (case nodes g nid of
        None \<Rightarrow> Some (Inr [])
      | Some target_node \<Rightarrow>
          (let start_time = timestamp target_node - timedelta_days time_window_days in
           case bfs_backward g nid max_hops start_time of
             None \<Rightarrow> None
           | Some reachable \<Rightarrow>
               Some (case filter_reached g nid
                            (\<lambda>t. start_time \<le> t \<and> t < timestamp target_node) (iter reachable) of
                       Inl e \<Rightarrow> Inl e
                     | Inr past_nodes \<Rightarrow>
                         Inr (slice_to (map snd (sort_by_timestamp_reverse past_nodes)) max_results))))"

subsection \<open>has\_path and get\_shortest\_path\<close>

text \<open>
  Both loops can return from inside the body. The third component of the state records
  that return (\<open>True\<close> for \<^verbatim>\<open>has_path\<close>, the path for \<^verbatim>\<open>get_shortest_path\<close>), and
  the loop stops once it is set.
\<close>

type_synonym path_state = "string list \<times> (string \<times> int) list \<times> bool"

definition has_path_running :: "path_state \<Rightarrow> bool" where
  "has_path_running s = (case s of (visited, queue, found) \<Rightarrow> queue \<noteq> [] \<and> \<not> found)"

definition has_path_step :: "TemporalGraph \<Rightarrow> string \<Rightarrow> int \<Rightarrow> path_state \<Rightarrow> path_state" where
  "has_path_step g to max_hops s =
     (case s of
        (visited, [], found) \<Rightarrow> s
      | (visited, (current_id, hops) # rest, found) \<Rightarrow>
          if current_id = to then (visited, rest, True)
          else if current_id \<in> set visited \<or> hops > max_hops then (visited, rest, found)
          else (visited @ [current_id],
                rest @ map (\<lambda>e. (to_node e, hops + 1))
                         (filter (\<lambda>e. to_node e \<notin> set (visited @ [current_id]))
                                 (get_list (edges g) current_id)),
                found))"

definition has_path :: "TemporalGraph \<Rightarrow> string \<Rightarrow> string \<Rightarrow> int \<Rightarrow> bool option" where
  "has_path g frm to max_hops =
     (if nodes g frm = None \<or> nodes g to = None then Some False
      else if frm = to then Some True
      else map_option (\<lambda>(visited, queue, found). found)
             (while_option has_path_running (has_path_step g to max_hops)
                ([], [(frm, 0)], False)))"

type_synonym shortest_state =
  "string list \<times> (string \<times> string list \<times> int) list \<times> string list option"

definition shortest_path_running :: "shortest_state \<Rightarrow> bool" where
  "shortest_path_running s = (case s of (visited, queue, res) \<Rightarrow> queue \<noteq> [] \<and> res = None)"

definition shortest_path_step ::
  "TemporalGraph \<Rightarrow> string \<Rightarrow> int \<Rightarrow> shortest_state \<Rightarrow> shortest_state" where
  "shortest_path_step g to max_hops s =
     (case s of
        (visited, [], res) \<Rightarrow> s
      | (visited, (current_id, path, hops) # rest, res) \<Rightarrow>
          if current_id = to then (visited, rest, Some path)
          else if current_id \<in> set visited \<or> hops > max_hops then (visited, rest, res)
          else (visited @ [current_id],
                rest @ map (\<lambda>e. (to_node e, path @ [to_node e], hops + 1))
                         (filter (\<lambda>e. to_node e \<notin> set (visited @ [current_id]))
                                 (get_list (edges g) current_id)),
                res))"

definition get_shortest_path ::
  "TemporalGraph \<Rightarrow> string \<Rightarrow> string \<Rightarrow> int \<Rightarrow> string list option option" where
  "get_shortest_path g frm to max_hops =
     (if nodes g frm = None \<or> nodes g to = None then Some None
      else if frm = to then Some (Some [frm])
      else map_option (\<lambda>(visited, queue, res). res)
             (while_option shortest_path_running (shortest_path_step g to max_hops)
                ([], [(frm, [frm], 0)], None)))"

section \<open>Attention heads (totg\_attention\_fixed.py)\<close>

datatype AttentionType = FORWARD | BACKWARD | BIDIRECTIONAL | TEMPORAL_FOCUS | SEMANTIC_FOCUS

record AttentionHead =
  head_id :: string
  attention_type :: AttentionType
  focus_keywords :: "string list"
  temporal_window_days :: int
  decay_factor :: real

text \<open>The four heads that \<^verbatim>\<open>_initialize_default_heads\<close> installs, in its order.\<close>

definition default_heads :: "AttentionHead list" where
  "default_heads =
     [\<lparr> head_id = ''short_forward'', attention_type = FORWARD, focus_keywords = [],
        temporal_window_days = 7, decay_factor = 8 / 10 \<rparr>,
      \<lparr> head_id = ''long_backward'', attention_type = BACKWARD, focus_keywords = [],
        temporal_window_days = 90, decay_factor = 98 / 100 \<rparr>,
      \<lparr> head_id = ''semantic_focus'', attention_type = SEMANTIC_FOCUS,
        focus_keywords = [''important'', ''key'', ''critical'', ''main'', ''significant''],
        temporal_window_days = 30, decay_factor = 95 / 100 \<rparr>,
      \<lparr> head_id = ''temporal_focus'', attention_type = TEMPORAL_FOCUS, focus_keywords = [],
        temporal_window_days = 14, decay_factor = 9 / 10 \<rparr>]"

text \<open>\<^verbatim>\<open>max(...)\<close> over a generator raises \<^verbatim>\<open>ValueError\<close> when there is nothing to take
  the maximum of.\<close>

fun py_max :: "int list \<Rightarrow> py_error + int" where
  "py_max [] = Inl ValueError"
| "py_max (x # xs) = Inr (foldl max x xs)"

text \<open>
  The window that \<^verbatim>\<open>compute_forward_attention\<close> passes on:
  \<^verbatim>\<open>max(h.temporal_window_days for h in self.attention_heads)\<close>.
\<close>

definition forward_time_window :: "AttentionHead list \<Rightarrow> py_error + int" where
  "forward_time_window heads = py_max (map temporal_window_days heads)"

text \<open>
  The candidate set of \<^verbatim>\<open>compute_forward_attention\<close>: the value of its local
  \<^verbatim>\<open>future_nodes\<close>, on the path that reaches the call (the node is in the graph and the
  cache has no valid entry). \<^verbatim>\<open>max_hops\<close> is left at its default 5.
\<close>

definition forward_candidates ::
  "(string list \<Rightarrow> string list) \<Rightarrow> TemporalGraph \<Rightarrow> AttentionHead list \<Rightarrow> string \<Rightarrow> int
     \<Rightarrow> (py_error + string list) option" where
  "forward_candidates iter g heads nid max_nodes =
     (case forward_time_window heads of
        Inl e \<Rightarrow> Some (Inl e)
      | Inr w \<Rightarrow> get_forward_nodes iter g nid w 5 (max_nodes * 2))"

text \<open>
  The window as the specification words it: the widest window among the heads relevant
  to the forward direction, which are the heads whose type is forward, bidirectional or
  temporal focus (the types \<^verbatim>\<open>compute_forward_attention\<close> scores with).
\<close>

definition forward_relevant :: "AttentionHead \<Rightarrow> bool" where
  "forward_relevant h = (attention_type h \<in> {FORWARD, BIDIRECTIONAL, TEMPORAL_FOCUS})"

definition spec_forward_window :: "AttentionHead list \<Rightarrow> py_error + int" where
  "spec_forward_window heads = py_max (map temporal_window_days (filter forward_relevant heads))"

section \<open>The chunked analyzer (totg\_markovian.py)\<close>

text \<open>
  \<^verbatim>\<open>NodeData\<close>, the plain record the API hands out for a node; the analyzer's
  \<^verbatim>\<open>self.api.graph\<close> is the \<^verbatim>\<open>TemporalGraph\<close> above.
\<close>

record NodeData =
  doc_id :: string
  doc_timestamp :: datetime
  doc_type :: string
  doc_content :: string

definition node_to_data :: "TemporalNode \<Rightarrow> NodeData" where
  "node_to_data n =
     \<lparr> doc_id = node_id n, doc_timestamp = timestamp n, doc_type = ''content'',
       doc_content = content n \<rparr>"

definition get_document :: "TemporalGraph \<Rightarrow> string \<Rightarrow> NodeData option" where
  "get_document g i = map_option node_to_data (nodes g i)"

subsection \<open>\_identify\_causal\_relationships\<close>

text \<open>
  The function looks the pair \<^verbatim>\<open>(doc.id, target_id)\<close> up in \<^verbatim>\<open>graph.edges\<close>. The keys
  of that dictionary are the \<^verbatim>\<open>from_node\<close> strings stored by \<^verbatim>\<open>add_edge\<close>, and in
  Python a tuple is never equal to a string: the test \<^verbatim>\<open>edge_key in graph.edges\<close> is
  a membership test of a tuple among string keys. Were it to succeed, the value found
  would be a list of edges, on which \<^verbatim>\<open>.relation_type\<close> raises \<^verbatim>\<open>AttributeError\<close>.
  The guard \<^verbatim>\<open>hasattr(self.api.graph, 'edges')\<close> is true of every \<^verbatim>\<open>TemporalGraph\<close>.
  \<^verbatim>\<open>get_forward_nodes\<close> is called with its defaults: 30 days, 5 hops, 50 results.
\<close>

datatype py_key = StrKey string | TupleKey string string

definition edges_contains :: "TemporalGraph \<Rightarrow> py_key \<Rightarrow> bool" where
  "edges_contains g k = (case k of StrKey s \<Rightarrow> edges g s \<noteq> None | TupleKey a b \<Rightarrow> False)"

text \<open>The inner loop over the forward-reachable ids of one document.\<close>

fun causal_targets ::
  "TemporalGraph \<Rightarrow> NodeData list \<Rightarrow> string \<Rightarrow> string list
     \<Rightarrow> py_error + (string \<times> string \<times> string) list" where
  "causal_targets g documents d [] = Inr []"
| "causal_targets g documents d (target_id # targets) =
     (if find (\<lambda>x. doc_id x = target_id) documents \<noteq> None
      then (if edges_contains g (TupleKey d target_id) then Inl AttributeError
            else case causal_targets g documents d targets of
                   Inl e \<Rightarrow> Inl e
                 | Inr rs \<Rightarrow> Inr ((d, target_id, ''sequential'') # rs))
      else causal_targets g documents d targets)"

text \<open>The outer loop; \<open>todo\<close> is the rest of \<^verbatim>\<open>documents\<close> still to go through.\<close>

fun causal_loop ::
  "(string list \<Rightarrow> string list) \<Rightarrow> TemporalGraph \<Rightarrow> NodeData list \<Rightarrow> NodeData list
     \<Rightarrow> (py_error + (string \<times> string \<times> string) list) option" where
  "causal_loop iter g documents [] = Some (Inr [])"
| "causal_loop iter g documents (doc # todo) =
     (case get_forward_nodes iter g (doc_id doc) 30 5 50 of
        None \<Rightarrow> None
      | Some (Inl e) \<Rightarrow> Some (Inl e)
      | Some (Inr targets) \<Rightarrow>
          (case causal_targets g documents (doc_id doc) targets of
             Inl e \<Rightarrow> Some (Inl e)
           | Inr rs \<Rightarrow>
               (case causal_loop iter g documents todo of
                  None \<Rightarrow> None
                | Some (Inl e) \<Rightarrow> Some (Inl e)
                | Some (Inr more_rs) \<Rightarrow> Some (Inr (rs @ more_rs)))))"

definition identify_causal_relationships ::
  "(string list \<Rightarrow> string list) \<Rightarrow> TemporalGraph \<Rightarrow> NodeData list
     \<Rightarrow> (py_error + (string \<times> string \<times> string) list) option" where
  "identify_causal_relationships iter g documents = causal_loop iter g documents documents"

text \<open>The name a relation has as a string (\<^verbatim>\<open>TemporalRelation.value\<close>).\<close>

fun relation_value :: "TemporalRelation \<Rightarrow> string" where
  "relation_value SEQUENTIAL = ''sequential''"
| "relation_value CAUSAL = ''causal''"
| "relation_value CONCURRENT = ''concurrent''"
| "relation_value BRANCH = ''branch''"
| "relation_value MERGE = ''merge''"

subsection \<open>Carryover\<close>

text \<open>
  The event and entity dictionaries are records: every event that
  \<^verbatim>\<open>_identify_critical_events\<close> builds has all of its keys, and so has every entity of
  \<^verbatim>\<open>_extract_key_entities\<close>, so the defaults of \<^verbatim>\<open>.get\<close> are never used. Importance
  and attention scores are floats that are only compared and stored here; they are real
  numbers in the model. A \<^verbatim>\<open>dict\<close> whose order matters is the list of its items in
  insertion order.
\<close>

record CriticalEvent =
  ev_doc_id :: string
  ev_timestamp :: datetime
  ev_type :: string
  importance :: real
  summary :: string

record EntityData =
  mentions :: int
  first_seen :: datetime
  last_seen :: datetime

record TemporalCarryover =
  critical_events :: "CriticalEvent list"
  key_entities :: "(string \<times> EntityData) list"
  causal_chains :: "(string \<times> string \<times> string) list"
  attention_scores :: "(string \<times> real) list"
  open_questions :: "string list"
  chunk_index :: int
  time_range :: "datetime option \<times> datetime option"
  document_count :: int

record ChunkResult =
  cr_chunk_index :: int
  cr_start_time :: datetime
  cr_end_time :: datetime
  cr_documents :: "NodeData list"
  cr_doc_ids :: "string list"
  cr_critical_events :: "CriticalEvent list"
  cr_causal_relationships :: "(string \<times> string \<times> string) list"
  cr_key_entities :: "(string \<times> EntityData) list"
  cr_memory_used :: int

text \<open>The configuration of \<^verbatim>\<open>MarkovianTOTG\<close>, with the defaults of its constructor.\<close>

record MarkovianConfig =
  chunk_size_days :: int
  max_carryover_events :: int
  max_carryover_chains :: int
  max_carryover_entities :: int

definition default_config :: MarkovianConfig where
  "default_config = \<lparr> chunk_size_days = 90, max_carryover_events = 10,
     max_carryover_chains = 20, max_carryover_entities = 15 \<rparr>"

definition get_size :: "TemporalCarryover \<Rightarrow> nat" where
  "get_size c = length (critical_events c) + length (key_entities c) + length (causal_chains c)
     + length (attention_scores c) + length (open_questions c)"

text \<open>\<^verbatim>\<open>d[k] = v\<close>: an existing key keeps its place, a new key goes to the end.
  \<^verbatim>\<open>dict(pairs)\<close> stores the pairs one after the other.\<close>

fun dict_set :: "('k \<times> 'v) list \<Rightarrow> 'k \<Rightarrow> 'v \<Rightarrow> ('k \<times> 'v) list" where
  "dict_set [] k v = [(k, v)]"
| "dict_set ((k', v') # d) k v = (if k' = k then (k, v) # d else (k', v') # dict_set d k v)"

definition dict_of :: "('k \<times> 'v) list \<Rightarrow> ('k \<times> 'v) list" where
  "dict_of pairs = foldl (\<lambda>d (k, v). dict_set d k v) [] pairs"

text \<open>\<^verbatim>\<open>xs[i:]\<close>: a negative \<open>i\<close> counts from the end and is clamped at the start of the
  list. \<^verbatim>\<open>xs[-n:]\<close> is \<open>slice_from xs (- n)\<close>; for \<open>n = 0\<close> that is \<^verbatim>\<open>xs[0:]\<close>, the whole
  list.\<close>

definition slice_from :: "'a list \<Rightarrow> int \<Rightarrow> 'a list" where
  "slice_from xs i = drop (if i < 0 then nat (int (length xs) + i) else nat i) xs"

text \<open>A stable sort in descending order of the key (\<^verbatim>\<open>reverse=True\<close>).\<close>

definition sort_desc :: "('a \<Rightarrow> 'b :: linorder) \<Rightarrow> 'a list \<Rightarrow> 'a list" where
  "sort_desc f xs = rev (sort_key f (rev xs))"

text \<open>The merge loop over the entities of the chunk.\<close>

definition merge_entity :: "(string \<times> EntityData) list \<Rightarrow> string \<times> EntityData \<Rightarrow> (string \<times> EntityData) list" where
  "merge_entity d item =
     (case map_of d (fst item) of
        Some old \<Rightarrow>
          dict_set d (fst item)
            (old\<lparr> mentions := mentions old + mentions (snd item), last_seen := last_seen (snd item) \<rparr>)
      | None \<Rightarrow> dict_set d (fst item) (snd item))"

definition extract_carryover :: "MarkovianConfig \<Rightarrow> ChunkResult \<Rightarrow> TemporalCarryover \<Rightarrow> TemporalCarryover" where
  "extract_carryover cfg chunk_result previous_state =
     (let all_events = sort_desc importance
            (critical_events previous_state @ cr_critical_events chunk_result);
          events = slice_to all_events (max_carryover_events cfg);
          merged = foldl merge_entity (key_entities previous_state) (cr_key_entities chunk_result);
          sorted_entities = sort_desc (\<lambda>x. mentions (snd x)) merged;
          entities = dict_of (slice_to sorted_entities (max_carryover_entities cfg));
          chains = slice_from (causal_chains previous_state @ cr_causal_relationships chunk_result)
                     (- max_carryover_chains cfg);
          recent = foldl (\<lambda>d i. dict_set d i (8 / 10)) [] (slice_from (cr_doc_ids chunk_result) (- 10));
          scores = foldl (\<lambda>d e. dict_set d (ev_doc_id e) 1) recent events
      in \<lparr> critical_events = events,
           key_entities = entities,
           causal_chains = chains,
           attention_scores = scores,
           open_questions = open_questions previous_state,
           chunk_index = chunk_index previous_state + 1,
           time_range = (fst (time_range previous_state), Some (cr_end_time chunk_result)),
           document_count = document_count previous_state + int (length (cr_documents chunk_result)) \<rparr>)"

subsection \<open>The loop of analyze\_long\_chain\<close>

text \<open>
  The state of the \<^verbatim>\<open>while current_time < end_time\<close> loop: the current time, the
  carryover, the number of documents so far and the chunks processed. \<^verbatim>\<open>_process_chunk\<close>
  enters as the parameter \<open>process_chunk\<close>, an arbitrary function of the arguments it is
  called with, so that what is proved of the carryovers holds whatever the chunks contain.
\<close>

type_synonym chunk_processor =
  "datetime \<Rightarrow> datetime \<Rightarrow> TemporalCarryover \<Rightarrow> string option \<Rightarrow> ChunkResult"

type_synonym analysis_state = "datetime \<times> TemporalCarryover \<times> int \<times> ChunkResult list"

definition initial_carryover :: "datetime \<Rightarrow> TemporalCarryover" where
  "initial_carryover start_time =
     \<lparr> critical_events = [], key_entities = [], causal_chains = [], attention_scores = [],
       open_questions = [], chunk_index = 0, time_range = (Some start_time, None),
       document_count = 0 \<rparr>"

definition analysis_running :: "datetime \<Rightarrow> analysis_state \<Rightarrow> bool" where
  "analysis_running end_time s = (fst s < end_time)"

definition analysis_step ::
  "MarkovianConfig \<Rightarrow> chunk_processor \<Rightarrow> string \<Rightarrow> datetime \<Rightarrow> analysis_state \<Rightarrow> analysis_state" where
  "analysis_step cfg process_chunk start_doc_id end_time s =
     (case s of (current_time, state, total_docs, chunks_processed) \<Rightarrow>
        let chunk_end = min (current_time + timedelta_days (chunk_size_days cfg)) end_time;
            chunk_result = process_chunk current_time chunk_end state
                             (if chunk_index state = 0 then Some start_doc_id else None);
            total_docs' = total_docs + int (length (cr_documents chunk_result));
            state' = extract_carryover cfg chunk_result state
        in (chunk_end,
            state'\<lparr> chunk_index := chunk_index state' + 1, document_count := total_docs' \<rparr>,
            total_docs',
            chunks_processed @ [chunk_result]))"

definition final_carryover ::
  "MarkovianConfig \<Rightarrow> chunk_processor \<Rightarrow> string \<Rightarrow> datetime \<Rightarrow> datetime \<Rightarrow> TemporalCarryover option" where
  "final_carryover cfg process_chunk start_doc_id start_time end_time =
     map_option (\<lambda>s. fst (snd s))
       (while_option (analysis_running end_time)
          (analysis_step cfg process_chunk start_doc_id end_time)
          (start_time, initial_carryover start_time, 0, []))"

section \<open>Notions used to state and prove the traversal properties\<close>

text \<open>
  \<^verbatim>\<open>get_direct_successors\<close> and \<^verbatim>\<open>get_direct_predecessors\<close> of the source: the ids one
  edge away, in the order of the adjacency list.
\<close>

definition get_direct_successors :: "TemporalGraph \<Rightarrow> string \<Rightarrow> string list" where
  "get_direct_successors g nid = map to_node (get_list (edges g) nid)"

definition get_direct_predecessors :: "TemporalGraph \<Rightarrow> string \<Rightarrow> string list" where
  "get_direct_predecessors g nid = map from_node (get_list (reverse_edges g) nid)"

text \<open>The two pruning tests of the traversals: a node that is in the node map and lies
  after the end, or before the start, of the window is visited but not expanded.\<close>

definition after_window :: "TemporalGraph \<Rightarrow> datetime \<Rightarrow> string \<Rightarrow> bool" where
  "after_window g end_time u =
     (case nodes g u of Some n \<Rightarrow> timestamp n > end_time | None \<Rightarrow> False)"

definition before_window :: "TemporalGraph \<Rightarrow> datetime \<Rightarrow> string \<Rightarrow> bool" where
  "before_window g start_time u =
     (case nodes g u of Some n \<Rightarrow> timestamp n < start_time | None \<Rightarrow> False)"

text \<open>
  The loop body of both traversals over an arbitrary successor function and pruning
  test; \<open>bfs_forward_step\<close> and \<open>bfs_backward_step\<close> are instances of it.
\<close>

definition gen_step ::
  "(string \<Rightarrow> string list) \<Rightarrow> (string \<Rightarrow> bool) \<Rightarrow> int \<Rightarrow> bfs_state \<Rightarrow> bfs_state" where
  "gen_step succs pruned max_hops s =
     (case s of
        (visited, []) \<Rightarrow> s
      | (visited, (c, h) # rest) \<Rightarrow>
          if c \<in> set visited \<or> h > max_hops then (visited, rest)
          else if pruned c then (visited @ [c], rest)
          else (visited @ [c],
                rest @ map (\<lambda>n. (n, h + 1)) (filter (\<lambda>n. n \<notin> set (visited @ [c])) (succs c))))"




text \<open>
  The measure that bounds the number of iterations: one plus the out-degree for every
  key of the adjacency map that is not visited yet; the queue length is added to it.
\<close>

definition pending :: "string set \<Rightarrow> (string \<Rightarrow> string list) \<Rightarrow> string list \<Rightarrow> nat" where
  "pending K succs visited = (\<Sum>u \<in> K - set visited. Suc (length (succs u)))"

definition iteration_bound :: "(string \<rightharpoonup> TemporalEdge list) \<Rightarrow> nat" where
  "iteration_bound adj = Suc (\<Sum>u \<in> dom adj. Suc (length (get_list adj u)))"




text \<open>The caps on a carryover, as the configuration states them.\<close>

definition carryover_within :: "MarkovianConfig \<Rightarrow> TemporalCarryover \<Rightarrow> bool" where
  "carryover_within cfg c =
     (int (length (critical_events c)) \<le> max_carryover_events cfg
      \<and> int (length (key_entities c)) \<le> max_carryover_entities cfg
      \<and> int (length (causal_chains c)) \<le> max_carryover_chains cfg
      \<and> int (length (attention_scores c)) \<le> 10 + max_carryover_events cfg)"

text \<open>The timestamp index is in ascending order of Python's tuple comparison.\<close>

definition tuple_le :: "datetime \<times> string \<Rightarrow> datetime \<times> string \<Rightarrow> bool" where
  "tuple_le a b = (\<not> tuple_less b a)"

definition index_sorted :: "(datetime \<times> string) list \<Rightarrow> bool" where
  "index_sorted xs = sorted_wrt tuple_le xs"


section \<open>Example graphs\<close>

text \<open>
  The dataclass constructors with their defaults: \<^verbatim>\<open>TemporalNode(id, timestamp, CONTENT,
  content)\<close> leaves \<^verbatim>\<open>temporal_index\<close> at \<open>-1\<close> and derives the layer from the
  timestamp; \<^verbatim>\<open>TemporalEdge(from_node, to_node, relation)\<close> has weight 1.
\<close>

definition make_node :: "string \<Rightarrow> datetime \<Rightarrow> string \<Rightarrow> TemporalNode" where
  "make_node i ts c =
     \<lparr> node_id = i, timestamp = ts, node_type = CONTENT, content = c, metadata = [],
       temporal_index = - 1, layer_id = compute_layer_id ts \<rparr>"

definition make_edge :: "string \<Rightarrow> string \<Rightarrow> TemporalRelation \<Rightarrow> TemporalEdge" where
  "make_edge a b r =
     \<lparr> from_node = a, to_node = b, relation = r, weight = 1, edge_metadata = [] \<rparr>"

definition add_nodes :: "TemporalGraph \<Rightarrow> TemporalNode list \<Rightarrow> TemporalGraph" where
  "add_nodes g ns = foldl (\<lambda>g n. snd (add_node g n)) g ns"

definition add_edges :: "TemporalGraph \<Rightarrow> TemporalEdge list \<Rightarrow> TemporalGraph" where
  "add_edges g es = foldl (\<lambda>g e. fst (snd (add_edge g e))) g es"

text \<open>The five-document chain of the end-to-end scenario, days counted from the epoch.\<close>

definition legal_chain :: TemporalGraph where
  "legal_chain =
     add_edges
       (add_nodes new_graph
          [make_node ''contract'' (timedelta_days 0) ''contract'',
           make_node ''amendment'' (timedelta_days 15) ''amendment'',
           make_node ''claim'' (timedelta_days 50) ''claim'',
           make_node ''response'' (timedelta_days 65) ''response'',
           make_node ''settlement'' (timedelta_days 80) ''settlement''])
       [make_edge ''contract'' ''amendment'' SEQUENTIAL,
        make_edge ''amendment'' ''claim'' CAUSAL,
        make_edge ''claim'' ''response'' SEQUENTIAL,
        make_edge ''response'' ''settlement'' CAUSAL]"

text \<open>The records the API returns for two documents of the chain.\<close>

definition response_doc :: NodeData where
  "response_doc = \<lparr> doc_id = ''response'', doc_timestamp = timedelta_days 65,
     doc_type = ''content'', doc_content = ''response'' \<rparr>"

definition settlement_doc :: NodeData where
  "settlement_doc = \<lparr> doc_id = ''settlement'', doc_timestamp = timedelta_days 80,
     doc_type = ''content'', doc_content = ''settlement'' \<rparr>"


text \<open>A carryover holding one causal chain, and a chunk that found two more.\<close>

definition one_chain_state :: TemporalCarryover where
  "one_chain_state = (initial_carryover 0)\<lparr>
     causal_chains := [(''contract'', ''amendment'', ''sequential'')], chunk_index := 2 \<rparr>"

definition two_chain_chunk :: ChunkResult where
  "two_chain_chunk =
     \<lparr> cr_chunk_index = 2, cr_start_time = timedelta_days 50, cr_end_time = timedelta_days 80,
       cr_documents = [response_doc, settlement_doc],
       cr_doc_ids = [''response'', ''settlement''],
       cr_critical_events = [],
       cr_causal_relationships = [(''claim'', ''response'', ''sequential''),
                                  (''response'', ''settlement'', ''sequential'')],
       cr_key_entities = [],
       cr_memory_used = 2000 \<rparr>"

text \<open>The same id added twice, at day 3 and at day 5; and an id of 101 characters of
  code 255, which Python orders after the upper sentinel of \<^verbatim>\<open>get_nodes_in_timerange\<close>.\<close>

definition once_added :: "string \<Rightarrow> TemporalGraph" where
  "once_added i = snd (add_node new_graph (make_node i (timedelta_days 3) ''first''))"

definition twice_added :: "string \<Rightarrow> TemporalGraph" where
  "twice_added i = snd (add_node (once_added i) (make_node i (timedelta_days 5) ''second''))"

definition long_id :: string where
  "long_id = replicate 101 (CHR 0xFF)"

text \<open>
  Two documents joined by one edge that states its type twice: the relation is
  \<^verbatim>\<open>CAUSAL\<close> and the metadata dictionary says so as well.
\<close>

definition causal_edge :: TemporalEdge where
  "causal_edge = \<lparr> from_node = ''breach'', to_node = ''lawsuit'', relation = CAUSAL,
     weight = 1, edge_metadata = [(''relation_type'', ''causal'')] \<rparr>"

definition causal_pair :: TemporalGraph where
  "causal_pair =
     add_edges
       (add_nodes new_graph
          [make_node ''breach'' (timedelta_days 0) ''breach'',
           make_node ''lawsuit'' (timedelta_days 10) ''lawsuit''])
       [causal_edge]"

definition breach_doc :: NodeData where
  "breach_doc = \<lparr> doc_id = ''breach'', doc_timestamp = timedelta_days 0,
     doc_type = ''content'', doc_content = ''breach'' \<rparr>"

definition lawsuit_doc :: NodeData where
  "lawsuit_doc = \<lparr> doc_id = ''lawsuit'', doc_timestamp = timedelta_days 10,
     doc_type = ''content'', doc_content = ''lawsuit'' \<rparr>"



section \<open>Facts about the example graphs\<close>

lemmas build_defs = legal_chain_def add_edges_def add_nodes_def add_edge_def add_node_def
  make_node_def make_edge_def new_graph_def Let_def get_list_def append_to_def

lemma legal_chain_nodes:
  "nodes legal_chain k =
   (if k = ''settlement''
    then Some ((make_node ''settlement'' (timedelta_days 80) ''settlement'')\<lparr>temporal_index := 4\<rparr>)
    else if k = ''response''
    then Some ((make_node ''response'' (timedelta_days 65) ''response'')\<lparr>temporal_index := 3\<rparr>)
    else if k = ''claim''
    then Some ((make_node ''claim'' (timedelta_days 50) ''claim'')\<lparr>temporal_index := 2\<rparr>)
    else if k = ''amendment''
    then Some ((make_node ''amendment'' (timedelta_days 15) ''amendment'')\<lparr>temporal_index := 1\<rparr>)
    else if k = ''contract''
    then Some ((make_node ''contract'' (timedelta_days 0) ''contract'')\<lparr>temporal_index := 0\<rparr>)
    else None)"
  by (simp add: build_defs insort_index_def bisect_right_def tuple_less_def timedelta_days_def)

lemma legal_chain_edges:
  "get_list (edges legal_chain) k =
   (if k = ''response'' then [make_edge ''response'' ''settlement'' CAUSAL]
    else if k = ''claim'' then [make_edge ''claim'' ''response'' SEQUENTIAL]
    else if k = ''amendment'' then [make_edge ''amendment'' ''claim'' CAUSAL]
    else if k = ''contract'' then [make_edge ''contract'' ''amendment'' SEQUENTIAL]
    else [])"
  by (simp add: build_defs)


lemmas forward_eval = bfs_forward_def while_option_unfold bfs_forward_step_def queue_nonempty_def
  make_node_def make_edge_def timedelta_days_def


lemmas query_eval = get_forward_nodes_def get_backward_nodes_def make_node_def Let_def
  timedelta_days_def sort_by_timestamp_def sort_by_timestamp_reverse_def slice_to_def

lemma legal_chain_forward_contract_90:
  "bfs_forward legal_chain ''contract'' 5 7776000000000
     = Some [''contract'', ''amendment'', ''claim'', ''response'', ''settlement'']"
  by (simp add: forward_eval legal_chain_nodes legal_chain_edges)

lemma legal_chain_forward_contract_30:
  "bfs_forward legal_chain ''contract'' 5 2592000000000
     = Some [''contract'', ''amendment'', ''claim'']"
  by (simp add: forward_eval legal_chain_nodes legal_chain_edges)

section \<open>Termination of the traversals\<close>

lemma while_option_bounded:
  fixes f :: "'s \<Rightarrow> nat"
  assumes dec: "\<And>s. b s \<Longrightarrow> f (c s) < f s"
  shows "\<exists>k \<le> f s. while_option b c s = Some ((c ^^ k) s) \<and> \<not> b ((c ^^ k) s)"
proof (induction "f s" arbitrary: s rule: less_induct)
  case less
  show ?case
  proof (cases "b s")
    case False
    then have "while_option b c s = Some ((c ^^ 0) s) \<and> \<not> b ((c ^^ 0) s)"
      by (simp add: while_option_unfold)
    then show ?thesis by blast
  next
    case True
    from dec [OF True] less obtain k where k: "k \<le> f (c s)"
      and w: "while_option b c (c s) = Some ((c ^^ k) (c s))" and nb: "\<not> b ((c ^^ k) (c s))"
      by blast
    have "while_option b c s = while_option b c (c s)"
      using True by (subst while_option_unfold) simp
    then have "while_option b c s = Some ((c ^^ Suc k) s) \<and> \<not> b ((c ^^ Suc k) s)"
      using w nb by (simp add: funpow_swap1)
    moreover have "Suc k \<le> f s" using k dec [OF True] by simp
    ultimately show ?thesis by blast
  qed
qed

lemma pending_visit:
  assumes fin: "finite K" and out: "\<And>u. u \<notin> K \<Longrightarrow> succs u = []" and new: "c \<notin> set visited"
  shows "pending K succs (visited @ [c]) + length (succs c) \<le> pending K succs visited"
proof (cases "c \<in> K")
  case True
  have eq: "K - set (visited @ [c]) = (K - set visited) - {c}" by auto
  have "finite (K - set visited)" using fin by simp
  moreover have "c \<in> K - set visited" using True new by simp
  ultimately have "(\<Sum>u \<in> K - set visited. Suc (length (succs u)))
      = Suc (length (succs c)) + (\<Sum>u \<in> (K - set visited) - {c}. Suc (length (succs u)))"
    by (rule sum.remove)
  then show ?thesis unfolding pending_def eq by linarith
next
  case False
  then have "K - set (visited @ [c]) = K - set visited" by auto
  then show ?thesis using out [OF False] unfolding pending_def by simp
qed

lemma gen_step_decreases:
  assumes fin: "finite K" and out: "\<And>u. u \<notin> K \<Longrightarrow> succs u = []" and ne: "queue_nonempty s"
  shows "pending K succs (fst (gen_step succs pruned mh s)) + length (snd (gen_step succs pruned mh s))
         < pending K succs (fst s) + length (snd s)"
proof -
  obtain visited c h rest where s: "s = (visited, (c, h) # rest)"
    using ne by (cases s, cases "snd s") (auto simp: queue_nonempty_def)
  show ?thesis
  proof (cases "c \<in> set visited \<or> h > mh")
    case True
    then have "gen_step succs pruned mh s = (visited, rest)" by (auto simp: s gen_step_def)
    then show ?thesis by (simp add: s)
  next
    case False
    then have new: "c \<notin> set visited" by simp
    have le: "pending K succs (visited @ [c]) + length (succs c) \<le> pending K succs visited"
      by (rule pending_visit [OF fin out new])
    show ?thesis
    proof (cases "pruned c")
      case True
      then have "gen_step succs pruned mh s = (visited @ [c], rest)"
        using False by (simp add: s gen_step_def)
      then show ?thesis using le by (simp add: s)
    next
      case np: False
      define new_entries where
        "new_entries = map (\<lambda>n. (n, h + 1)) (filter (\<lambda>n. n \<notin> set (visited @ [c])) (succs c))"
      have fl: "length new_entries \<le> length (succs c)"
        unfolding new_entries_def by simp
      have "gen_step succs pruned mh s = (visited @ [c], rest @ new_entries)"
        using False np by (simp add: s gen_step_def new_entries_def)
      then show ?thesis using le fl by (simp add: s)
    qed
  qed
qed

lemma gen_step_distinct:
  "distinct (fst s) \<Longrightarrow> distinct (fst (gen_step succs pruned mh s))"
  by (cases s, cases "snd s") (auto simp: gen_step_def)

lemma bfs_forward_step_gen:
  "bfs_forward_step g mh et = gen_step (get_direct_successors g) (after_window g et) mh"
proof
  fix s :: bfs_state
  show "bfs_forward_step g mh et s = gen_step (get_direct_successors g) (after_window g et) mh s"
  proof (cases s)
    case (Pair visited queue)
    show ?thesis
    proof (cases queue)
      case Nil
      then show ?thesis by (simp add: Pair bfs_forward_step_def gen_step_def)
    next
      case (Cons e rest)
      obtain c h where e: "e = (c, h)" by (cases e)
      show ?thesis
        by (simp add: Pair Cons e bfs_forward_step_def gen_step_def get_direct_successors_def
            after_window_def filter_map comp_def)
    qed
  qed
qed

lemma bfs_backward_step_gen:
  "bfs_backward_step g mh st = gen_step (get_direct_predecessors g) (before_window g st) mh"
proof
  fix s :: bfs_state
  show "bfs_backward_step g mh st s = gen_step (get_direct_predecessors g) (before_window g st) mh s"
  proof (cases s)
    case (Pair visited queue)
    show ?thesis
    proof (cases queue)
      case Nil
      then show ?thesis by (simp add: Pair bfs_backward_step_def gen_step_def)
    next
      case (Cons e rest)
      obtain c h where e: "e = (c, h)" by (cases e)
      show ?thesis
        by (simp add: Pair Cons e bfs_backward_step_def gen_step_def get_direct_predecessors_def
            before_window_def filter_map comp_def)
    qed
  qed
qed

lemma successors_outside_dom: "u \<notin> dom (edges g) \<Longrightarrow> get_direct_successors g u = []"
  by (auto simp: get_direct_successors_def get_list_def split: option.splits)

lemma predecessors_outside_dom: "u \<notin> dom (reverse_edges g) \<Longrightarrow> get_direct_predecessors g u = []"
  by (auto simp: get_direct_predecessors_def get_list_def split: option.splits)

lemma pending_successors_start:
  "Suc (pending (dom (edges g)) (get_direct_successors g) []) = iteration_bound (edges g)"
  by (simp add: pending_def iteration_bound_def get_direct_successors_def)

lemma pending_predecessors_start:
  "Suc (pending (dom (reverse_edges g)) (get_direct_predecessors g) []) = iteration_bound (reverse_edges g)"
  by (simp add: pending_def iteration_bound_def get_direct_predecessors_def)

lemma gen_loop_bounded:
  assumes fin: "finite K" and out: "\<And>u. u \<notin> K \<Longrightarrow> succs u = []"
  shows "\<exists>k \<le> Suc (pending K succs []).
           while_option queue_nonempty (gen_step succs pruned mh) ([], [(start, 0)])
             = Some ((gen_step succs pruned mh ^^ k) ([], [(start, 0)]))
           \<and> \<not> queue_nonempty ((gen_step succs pruned mh ^^ k) ([], [(start, 0)]))"
proof -
  define f where "f = (\<lambda>s :: bfs_state. pending K succs (fst s) + length (snd s))"
  have dec: "\<And>s. queue_nonempty s \<Longrightarrow> f (gen_step succs pruned mh s) < f s"
    unfolding f_def by (rule gen_step_decreases [OF fin out])
  have "f ([], [(start, 0)]) = Suc (pending K succs [])" by (simp add: f_def)
  then show ?thesis
    using while_option_bounded [of queue_nonempty f "gen_step succs pruned mh" "([], [(start, 0)])", OF dec]
    by simp
qed

lemma gen_loop_distinct:
  assumes "while_option queue_nonempty (gen_step succs pruned mh) ([], [(start, 0)]) = Some t"
  shows "distinct (fst t)"
proof -
  have "(distinct \<circ> fst) t"
  proof (rule while_option_rule [where P = "distinct \<circ> fst", OF _ assms])
    show "(distinct \<circ> fst) ([], [(start, 0)])" by simp
  next
    fix s :: bfs_state
    assume "(distinct \<circ> fst) s"
    then show "(distinct \<circ> fst) (gen_step succs pruned mh s)"
      by (simp add: gen_step_distinct)
  qed
  then show ?thesis by simp
qed

lemma bfs_forward_bounded:
  assumes fin: "finite (dom (edges g))"
  shows "\<exists>k \<le> iteration_bound (edges g). \<exists>t.
           (bfs_forward_step g mh et ^^ k) ([], [(start, 0)]) = t \<and> \<not> queue_nonempty t
           \<and> bfs_forward g start mh et = Some (fst t) \<and> distinct (fst t)"
proof -
  let ?c = "gen_step (get_direct_successors g) (after_window g et) mh"
  obtain k where k: "k \<le> Suc (pending (dom (edges g)) (get_direct_successors g) [])"
    and w: "while_option queue_nonempty ?c ([], [(start, 0)]) = Some ((?c ^^ k) ([], [(start, 0)]))"
    and q: "\<not> queue_nonempty ((?c ^^ k) ([], [(start, 0)]))"
    using gen_loop_bounded [of "dom (edges g)" "get_direct_successors g" "after_window g et" mh start,
        OF fin successors_outside_dom]
    by blast
  have d: "distinct (fst ((?c ^^ k) ([], [(start, 0)])))"
    by (rule gen_loop_distinct [OF w])
  show ?thesis
    using k w q d
    by (auto simp: bfs_forward_def bfs_forward_step_gen pending_successors_start)
qed

lemma bfs_backward_bounded:
  assumes fin: "finite (dom (reverse_edges g))"
  shows "\<exists>k \<le> iteration_bound (reverse_edges g). \<exists>t.
           (bfs_backward_step g mh st ^^ k) ([], [(start, 0)]) = t \<and> \<not> queue_nonempty t
           \<and> bfs_backward g start mh st = Some (fst t) \<and> distinct (fst t)"
proof -
  let ?c = "gen_step (get_direct_predecessors g) (before_window g st) mh"
  obtain k where k: "k \<le> Suc (pending (dom (reverse_edges g)) (get_direct_predecessors g) [])"
    and w: "while_option queue_nonempty ?c ([], [(start, 0)]) = Some ((?c ^^ k) ([], [(start, 0)]))"
    and q: "\<not> queue_nonempty ((?c ^^ k) ([], [(start, 0)]))"
    using gen_loop_bounded [of "dom (reverse_edges g)" "get_direct_predecessors g"
        "before_window g st" mh start, OF fin predecessors_outside_dom]
    by blast
  have d: "distinct (fst ((?c ^^ k) ([], [(start, 0)])))"
    by (rule gen_loop_distinct [OF w])
  show ?thesis
    using k w q d
    by (auto simp: bfs_backward_def bfs_backward_step_gen pending_predecessors_start)
qed

lemma has_path_step_decreases:
  assumes fin: "finite (dom (edges g))" and run: "has_path_running s"
  shows "(case has_path_step g to mh s of (v, q, f) \<Rightarrow> pending (dom (edges g)) (get_direct_successors g) v + length q)
         < (case s of (v, q, f) \<Rightarrow> pending (dom (edges g)) (get_direct_successors g) v + length q)"
proof -
  obtain visited c h rest where s: "s = (visited, (c, h) # rest, False)"
    using run by (cases s, cases "fst (snd s)") (auto simp: has_path_running_def)
  show ?thesis
  proof (cases "c = to \<or> c \<in> set visited \<or> h > mh")
    case True
    then show ?thesis by (auto simp: s has_path_step_def)
  next
    case False
    then have new: "c \<notin> set visited" by simp
    have le: "pending (dom (edges g)) (get_direct_successors g) (visited @ [c])
                + length (get_direct_successors g c)
              \<le> pending (dom (edges g)) (get_direct_successors g) visited"
      by (rule pending_visit [OF fin successors_outside_dom new])
    define new_entries where
      "new_entries = map (\<lambda>e. (to_node e, h + 1))
         (filter (\<lambda>e. to_node e \<notin> set (visited @ [c])) (get_list (edges g) c))"
    have fl: "length new_entries \<le> length (get_direct_successors g c)"
      unfolding new_entries_def get_direct_successors_def by simp
    have "has_path_step g to mh s = (visited @ [c], rest @ new_entries, False)"
      using False by (simp add: s has_path_step_def new_entries_def)
    then show ?thesis using le fl by (simp add: s)
  qed
qed

lemma has_path_loop_bounded:
  assumes fin: "finite (dom (edges g))"
  shows "\<exists>k \<le> iteration_bound (edges g).
           while_option has_path_running (has_path_step g to mh) ([], [(frm, 0)], False)
             = Some ((has_path_step g to mh ^^ k) ([], [(frm, 0)], False))
           \<and> \<not> has_path_running ((has_path_step g to mh ^^ k) ([], [(frm, 0)], False))"
proof -
  define f where "f = (\<lambda>s :: path_state.
     case s of (v, q, fd) \<Rightarrow> pending (dom (edges g)) (get_direct_successors g) v + length q)"
  have dec: "\<And>s. has_path_running s \<Longrightarrow> f (has_path_step g to mh s) < f s"
    unfolding f_def by (rule has_path_step_decreases [OF fin])
  have "f ([], [(frm, 0)], False) = iteration_bound (edges g)"
    by (simp add: f_def pending_successors_start [symmetric])
  then show ?thesis
    using while_option_bounded [of has_path_running f "has_path_step g to mh" "([], [(frm, 0)], False)", OF dec]
    by simp
qed

lemma shortest_path_step_decreases:
  assumes fin: "finite (dom (edges g))" and run: "shortest_path_running s"
  shows "(case shortest_path_step g to mh s of (v, q, r) \<Rightarrow> pending (dom (edges g)) (get_direct_successors g) v + length q)
         < (case s of (v, q, r) \<Rightarrow> pending (dom (edges g)) (get_direct_successors g) v + length q)"
proof -
  obtain visited c p h rest where s: "s = (visited, (c, p, h) # rest, None)"
    using run by (cases s, cases "fst (snd s)") (auto simp: shortest_path_running_def)
  show ?thesis
  proof (cases "c = to \<or> c \<in> set visited \<or> h > mh")
    case True
    then show ?thesis by (auto simp: s shortest_path_step_def)
  next
    case False
    then have new: "c \<notin> set visited" by simp
    have le: "pending (dom (edges g)) (get_direct_successors g) (visited @ [c])
                + length (get_direct_successors g c)
              \<le> pending (dom (edges g)) (get_direct_successors g) visited"
      by (rule pending_visit [OF fin successors_outside_dom new])
    define new_entries where
      "new_entries = map (\<lambda>e. (to_node e, p @ [to_node e], h + 1))
         (filter (\<lambda>e. to_node e \<notin> set (visited @ [c])) (get_list (edges g) c))"
    have fl: "length new_entries \<le> length (get_direct_successors g c)"
      unfolding new_entries_def get_direct_successors_def by simp
    have "shortest_path_step g to mh s = (visited @ [c], rest @ new_entries, None)"
      using False by (simp add: s shortest_path_step_def new_entries_def)
    then show ?thesis using le fl by (simp add: s)
  qed
qed

lemma shortest_path_loop_bounded:
  assumes fin: "finite (dom (edges g))"
  shows "\<exists>k \<le> iteration_bound (edges g).
           while_option shortest_path_running (shortest_path_step g to mh) ([], [(frm, [frm], 0)], None)
             = Some ((shortest_path_step g to mh ^^ k) ([], [(frm, [frm], 0)], None))
           \<and> \<not> shortest_path_running ((shortest_path_step g to mh ^^ k) ([], [(frm, [frm], 0)], None))"
proof -
  define f where "f = (\<lambda>s :: shortest_state.
     case s of (v, q, r) \<Rightarrow> pending (dom (edges g)) (get_direct_successors g) v + length q)"
  have dec: "\<And>s. shortest_path_running s \<Longrightarrow> f (shortest_path_step g to mh s) < f s"
    unfolding f_def by (rule shortest_path_step_decreases [OF fin])
  have "f ([], [(frm, [frm], 0)], None) = iteration_bound (edges g)"
    by (simp add: f_def pending_successors_start [symmetric])
  then show ?thesis
    using while_option_bounded [of shortest_path_running f "shortest_path_step g to mh"
        "([], [(frm, [frm], 0)], None)", OF dec]
    by simp
qed

text \<open>
  Claim C4. On a graph whose adjacency dictionaries have finitely many keys, cycles or
  not, all four operations return. Each traversal loop stops after at most
  \<open>iteration_bound\<close> iterations (one for the start entry, one for each key and one for
  each edge of the adjacency map), because an iteration either discards the entry it
  takes from the queue or marks a node visited that was not visited before; the visited
  ids a traversal returns are pairwise distinct.
\<close>

theorem traversals_terminate:
  assumes "finite (dom (edges g))" and "finite (dom (reverse_edges g))"
  shows "(\<exists>k \<le> iteration_bound (edges g). \<exists>t.
            (bfs_forward_step g max_hops end_time ^^ k) ([], [(nid, 0)]) = t \<and> \<not> queue_nonempty t
            \<and> bfs_forward g nid max_hops end_time = Some (fst t) \<and> distinct (fst t))
       \<and> (\<exists>k \<le> iteration_bound (reverse_edges g). \<exists>t.
            (bfs_backward_step g max_hops start_time ^^ k) ([], [(nid, 0)]) = t \<and> \<not> queue_nonempty t
            \<and> bfs_backward g nid max_hops start_time = Some (fst t) \<and> distinct (fst t))
       \<and> (\<exists>r. get_forward_nodes iter g nid time_window_days max_hops max_results = Some r)
       \<and> (\<exists>r. get_backward_nodes iter g nid time_window_days max_hops max_results = Some r)
       \<and> (\<exists>k \<le> iteration_bound (edges g).
            \<not> has_path_running ((has_path_step g to max_hops ^^ k) ([], [(nid, 0)], False)))
       \<and> (\<exists>r. has_path g nid to max_hops = Some r)
       \<and> (\<exists>k \<le> iteration_bound (edges g).
            \<not> shortest_path_running
                 ((shortest_path_step g to max_hops ^^ k) ([], [(nid, [nid], 0)], None)))
       \<and> (\<exists>r. get_shortest_path g nid to max_hops = Some r)"
proof -
  note f = bfs_forward_bounded [OF assms(1)]
  note b = bfs_backward_bounded [OF assms(2)]
  have gf: "\<exists>r. get_forward_nodes iter g nid time_window_days max_hops max_results = Some r"
  proof (cases "nodes g nid")
    case None
    then show ?thesis by (simp add: get_forward_nodes_def)
  next
    case (Some n)
    obtain vis where "bfs_forward g nid max_hops (timestamp n + timedelta_days time_window_days) = Some vis"
      using f by blast
    then show ?thesis by (simp add: get_forward_nodes_def Some Let_def)
  qed
  have gb: "\<exists>r. get_backward_nodes iter g nid time_window_days max_hops max_results = Some r"
  proof (cases "nodes g nid")
    case None
    then show ?thesis by (simp add: get_backward_nodes_def)
  next
    case (Some n)
    obtain vis where "bfs_backward g nid max_hops (timestamp n - timedelta_days time_window_days) = Some vis"
      using b by blast
    then show ?thesis by (simp add: get_backward_nodes_def Some Let_def)
  qed
  obtain k1 where k1: "k1 \<le> iteration_bound (edges g)"
    and w1: "while_option has_path_running (has_path_step g to max_hops) ([], [(nid, 0)], False)
             = Some ((has_path_step g to max_hops ^^ k1) ([], [(nid, 0)], False))"
    and s1: "\<not> has_path_running ((has_path_step g to max_hops ^^ k1) ([], [(nid, 0)], False))"
    using has_path_loop_bounded [OF assms(1)] by blast
  have hp: "\<exists>r. has_path g nid to max_hops = Some r"
    using w1 by (auto simp: has_path_def)
  obtain k2 where k2: "k2 \<le> iteration_bound (edges g)"
    and w2: "while_option shortest_path_running (shortest_path_step g to max_hops)
               ([], [(nid, [nid], 0)], None)
             = Some ((shortest_path_step g to max_hops ^^ k2) ([], [(nid, [nid], 0)], None))"
    and s2: "\<not> shortest_path_running
                 ((shortest_path_step g to max_hops ^^ k2) ([], [(nid, [nid], 0)], None))"
    using shortest_path_loop_bounded [OF assms(1)] by blast
  have sp: "\<exists>r. get_shortest_path g nid to max_hops = Some r"
    using w2 by (auto simp: get_shortest_path_def)
  have h1: "\<exists>k \<le> iteration_bound (edges g).
            \<not> has_path_running ((has_path_step g to max_hops ^^ k) ([], [(nid, 0)], False))"
    using k1 s1 by blast
  have h2: "\<exists>k \<le> iteration_bound (edges g).
            \<not> shortest_path_running
                 ((shortest_path_step g to max_hops ^^ k) ([], [(nid, [nid], 0)], None))"
    using k2 s2 by blast
  show ?thesis
    by (intro conjI f b gf gb h1 hp h2 sp)
qed

lemma legal_chain_finite:
  "finite (dom (edges legal_chain))" "finite (dom (reverse_edges legal_chain))"
  by (simp_all add: build_defs)

theorem traversals_terminate_witness:
  "finite (dom (edges legal_chain)) \<and> finite (dom (reverse_edges legal_chain))
   \<and> (\<exists>r. get_forward_nodes (\<lambda>xs. xs) legal_chain ''claim'' 60 5 50 = Some r)
   \<and> (\<exists>r. get_backward_nodes (\<lambda>xs. xs) legal_chain ''claim'' 60 5 50 = Some r)
   \<and> (\<exists>r. has_path legal_chain ''claim'' ''settlement'' 5 = Some r)
   \<and> (\<exists>r. get_shortest_path legal_chain ''claim'' ''settlement'' 5 = Some r)"
  using legal_chain_finite
    traversals_terminate [OF legal_chain_finite, of 5 _ "''claim''" _ "\<lambda>xs. xs" 60 50 "''settlement''"]
  by blast

section \<open>What the traversals reach\<close>


















lemma filter_reached_missing:
  "r \<in> set xs \<Longrightarrow> r \<noteq> nid \<Longrightarrow> nodes g r = None \<Longrightarrow> filter_reached g nid keep xs = Inl KeyError"
proof (induction xs)
  case Nil
  then show ?case by simp
next
  case (Cons x xs)
  show ?case
  proof (cases "x = r")
    case True
    then show ?thesis using Cons.prems by simp
  next
    case False
    then have "filter_reached g nid keep xs = Inl KeyError" using Cons by simp
    then show ?thesis by (simp split: option.splits)
  qed
qed









































section \<open>Properties of the graph operations\<close>

subsection \<open>add\_edge\<close>

text \<open>
  Claim C7. \<^verbatim>\<open>add_edge\<close> returns false when an endpoint id is not in the node map, and
  then both adjacency maps are unchanged (the whole graph is). When both endpoints are
  nodes it returns true and the edge is appended to the forward list of its source and
  to the reverse list of its target, whatever the relation and the timestamps are; for a
  sequential or causal edge whose source is strictly later than its target the only
  effect beyond that is the printed warning.
\<close>

theorem add_edge_endpoints:
  "(nodes g (from_node e) = None \<or> nodes g (to_node e) = None \<longrightarrow>
      fst (add_edge g e) = False \<and> fst (snd (add_edge g e)) = g)
   \<and> (nodes g (from_node e) = Some a \<and> nodes g (to_node e) = Some b \<longrightarrow>
        fst (add_edge g e) = True
        \<and> edges (fst (snd (add_edge g e)))
            = (edges g)(from_node e \<mapsto> get_list (edges g) (from_node e) @ [e])
        \<and> reverse_edges (fst (snd (add_edge g e)))
            = (reverse_edges g)(to_node e \<mapsto> get_list (reverse_edges g) (to_node e) @ [e])
        \<and> (relation e \<in> {SEQUENTIAL, CAUSAL} \<and> timestamp a > timestamp b \<longrightarrow>
              snd (snd (add_edge g e)) = [''Warning: temporal edge goes backward in time'']))"
  by (auto simp: add_edge_def append_to_def split: option.splits)

theorem add_edge_endpoints_witness:
  "nodes legal_chain ''appeal'' = None
   \<and> fst (add_edge legal_chain (make_edge ''claim'' ''appeal'' CAUSAL)) = False
   \<and> fst (snd (add_edge legal_chain (make_edge ''claim'' ''appeal'' CAUSAL))) = legal_chain
   \<and> (\<exists>a b. nodes legal_chain ''settlement'' = Some a \<and> nodes legal_chain ''contract'' = Some b
         \<and> timestamp a > timestamp b)
   \<and> fst (add_edge legal_chain (make_edge ''settlement'' ''contract'' CAUSAL)) = True
   \<and> get_list (edges (fst (snd (add_edge legal_chain (make_edge ''settlement'' ''contract'' CAUSAL)))))
        ''settlement'' = [make_edge ''settlement'' ''contract'' CAUSAL]
   \<and> snd (snd (add_edge legal_chain (make_edge ''settlement'' ''contract'' CAUSAL)))
        = [''Warning: temporal edge goes backward in time'']"
proof -
  have n1: "nodes legal_chain ''appeal'' = None"
    by (simp add: legal_chain_def add_edges_def add_nodes_def add_edge_def add_node_def
        make_node_def make_edge_def new_graph_def Let_def)
  obtain a where a: "nodes legal_chain ''settlement'' = Some a"
    and ta: "timestamp a = timedelta_days 80"
    by (simp add: legal_chain_def add_edges_def add_nodes_def add_edge_def add_node_def
        make_node_def make_edge_def new_graph_def Let_def)
  obtain b where b: "nodes legal_chain ''contract'' = Some b"
    and tb: "timestamp b = timedelta_days 0"
    by (simp add: legal_chain_def add_edges_def add_nodes_def add_edge_def add_node_def
        make_node_def make_edge_def new_graph_def Let_def)
  have lt: "timestamp a > timestamp b"
    by (simp add: ta tb timedelta_days_def)
  have e0: "get_list (edges legal_chain) ''settlement'' = []"
    by (simp add: legal_chain_def add_edges_def add_nodes_def add_edge_def add_node_def
        make_node_def make_edge_def new_graph_def Let_def get_list_def append_to_def)
  have m: "nodes legal_chain (from_node (make_edge ''claim'' ''appeal'' CAUSAL)) = None
           \<or> nodes legal_chain (to_node (make_edge ''claim'' ''appeal'' CAUSAL)) = None"
    using n1 by (simp add: make_edge_def)
  have p: "nodes legal_chain (from_node (make_edge ''settlement'' ''contract'' CAUSAL)) = Some a
           \<and> nodes legal_chain (to_node (make_edge ''settlement'' ''contract'' CAUSAL)) = Some b"
    using a b by (simp add: make_edge_def)
  have r: "relation (make_edge ''settlement'' ''contract'' CAUSAL) \<in> {SEQUENTIAL, CAUSAL}"
    by (simp add: make_edge_def)
  from add_edge_endpoints [of legal_chain "make_edge ''claim'' ''appeal'' CAUSAL"] m
  have w1: "fst (add_edge legal_chain (make_edge ''claim'' ''appeal'' CAUSAL)) = False
            \<and> fst (snd (add_edge legal_chain (make_edge ''claim'' ''appeal'' CAUSAL))) = legal_chain"
    by blast
  from add_edge_endpoints [of legal_chain "make_edge ''settlement'' ''contract'' CAUSAL" a b] p r lt
  have w2: "fst (add_edge legal_chain (make_edge ''settlement'' ''contract'' CAUSAL)) = True
     \<and> edges (fst (snd (add_edge legal_chain (make_edge ''settlement'' ''contract'' CAUSAL))))
        = (edges legal_chain)(from_node (make_edge ''settlement'' ''contract'' CAUSAL) \<mapsto>
             get_list (edges legal_chain) (from_node (make_edge ''settlement'' ''contract'' CAUSAL))
               @ [make_edge ''settlement'' ''contract'' CAUSAL])
     \<and> snd (snd (add_edge legal_chain (make_edge ''settlement'' ''contract'' CAUSAL)))
        = [''Warning: temporal edge goes backward in time'']"
    by blast
  have w3: "get_list (edges (fst (snd (add_edge legal_chain (make_edge ''settlement'' ''contract'' CAUSAL)))))
        ''settlement'' = [make_edge ''settlement'' ''contract'' CAUSAL]"
    using w2 e0 by (simp add: get_list_def make_edge_def)
  show ?thesis using n1 a b lt w1 w2 w3 by blast
qed

subsection \<open>Unknown ids\<close>

text \<open>
  Claim C8. For an id that is not in the node map, \<^verbatim>\<open>get_forward_nodes\<close> and
  \<^verbatim>\<open>get_backward_nodes\<close> return the empty list, \<^verbatim>\<open>get_shortest_path\<close> returns
  \<^verbatim>\<open>None\<close> and \<^verbatim>\<open>has_path\<close> returns false, whichever endpoint is the unknown one;
  each of them returns (the outer \<open>Some\<close>) and none raises (no \<open>Inl\<close>).
\<close>

theorem unknown_id_queries:
  "nodes g nid = None \<Longrightarrow>
     get_forward_nodes iter g nid time_window_days max_hops max_results = Some (Inr [])
   \<and> get_backward_nodes iter g nid time_window_days max_hops max_results = Some (Inr [])
   \<and> get_shortest_path g nid other max_hops = Some None
   \<and> get_shortest_path g other nid max_hops = Some None
   \<and> has_path g nid other max_hops = Some False
   \<and> has_path g other nid max_hops = Some False"
  by (simp add: get_forward_nodes_def get_backward_nodes_def get_shortest_path_def has_path_def)

theorem unknown_id_queries_witness:
  "nodes legal_chain ''appeal'' = None
   \<and> get_forward_nodes (\<lambda>xs. xs) legal_chain ''appeal'' 30 5 50 = Some (Inr [])
   \<and> get_backward_nodes (\<lambda>xs. xs) legal_chain ''appeal'' 30 5 50 = Some (Inr [])
   \<and> get_shortest_path legal_chain ''appeal'' ''claim'' 5 = Some None
   \<and> get_shortest_path legal_chain ''claim'' ''appeal'' 5 = Some None
   \<and> has_path legal_chain ''appeal'' ''claim'' 5 = Some False
   \<and> has_path legal_chain ''claim'' ''appeal'' 5 = Some False"
proof -
  have n: "nodes legal_chain ''appeal'' = None"
    by (simp add: legal_chain_def add_edges_def add_nodes_def add_edge_def add_node_def
        make_node_def make_edge_def new_graph_def Let_def)
  show ?thesis
    using n unknown_id_queries [OF n, of "\<lambda>xs. xs" 30 5 50 "''claim''"] by simp
qed

section \<open>Reachability queries\<close>







section \<open>Properties of the attention layer\<close>

lemma default_heads_windows: "map temporal_window_days default_heads = [7, 90, 30, 14]"
  by (simp add: default_heads_def)

lemma default_heads_forward_windows:
  "map temporal_window_days (filter forward_relevant default_heads) = [7, 14]"
  by (simp add: default_heads_def forward_relevant_def)

lemma legal_chain_forward_contract_window_90:
  "get_forward_nodes (\<lambda>xs. xs) legal_chain ''contract'' 90 5 20
     = Some (Inr [''amendment'', ''claim'', ''response'', ''settlement''])"
  by (simp add: query_eval legal_chain_nodes legal_chain_forward_contract_90)

lemma legal_chain_forward_contract_window_30:
  "get_forward_nodes (\<lambda>xs. xs) legal_chain ''contract'' 30 5 20 = Some (Inr [''amendment''])"
  by (simp add: query_eval legal_chain_nodes legal_chain_forward_contract_30)

text \<open>
  Claim C5, as stated, fails: with the default heads the window handed to
  \<^verbatim>\<open>get_forward_nodes\<close> is 90 days, the window of the backward head, and not 30; the
  widest window among the forward-relevant default heads is 14. From
  \<^verbatim>\<open>contract\<close> in the five-document chain the candidates therefore reach as far as
  \<^verbatim>\<open>settlement\<close> at day 80, where a 30-day window stops after \<^verbatim>\<open>amendment\<close>.
\<close>

theorem forward_window_is_not_30:
  "forward_time_window default_heads = Inr 90
   \<and> forward_time_window default_heads \<noteq> Inr 30
   \<and> spec_forward_window default_heads = Inr 14
   \<and> forward_candidates (\<lambda>xs. xs) legal_chain default_heads ''contract'' 10
        = Some (Inr [''amendment'', ''claim'', ''response'', ''settlement''])
   \<and> get_forward_nodes (\<lambda>xs. xs) legal_chain ''contract'' 30 5 20 = Some (Inr [''amendment''])"
proof -
  have w: "forward_time_window default_heads = Inr 90"
    by (simp add: forward_time_window_def default_heads_windows)
  have s: "spec_forward_window default_heads = Inr 14"
    by (simp add: spec_forward_window_def default_heads_forward_windows)
  have c: "forward_candidates (\<lambda>xs. xs) legal_chain default_heads ''contract'' 10
        = Some (Inr [''amendment'', ''claim'', ''response'', ''settlement''])"
    by (simp add: forward_candidates_def w legal_chain_forward_contract_window_90)
  show ?thesis using w s c legal_chain_forward_contract_window_30 by simp
qed

lemma foldl_max_Max: "foldl max (x :: int) xs = Max (set (x # xs))"
proof (induction xs arbitrary: x)
  case Nil
  show ?case by simp
next
  case (Cons y ys)
  have "Max (set (max x y # ys)) = Max (set (x # y # ys))"
  proof (cases "ys = []")
    case True
    then show ?thesis by simp
  next
    case False
    then have ne: "set ys \<noteq> {}" by simp
    have "Max (insert (max x y) (set ys)) = max (max x y) (Max (set ys))"
      using ne by (simp add: Max_insert)
    moreover have "Max (insert x (insert y (set ys))) = max x (max y (Max (set ys)))"
      using ne by (simp add: Max_insert)
    ultimately show ?thesis by (simp add: max.assoc)
  qed
  then show ?case using Cons.IH [of "max x y"] by simp
qed

text \<open>
  Claim C5, amended. Whenever there is at least one head, the window handed to
  \<^verbatim>\<open>get_forward_nodes\<close> is the widest \<^verbatim>\<open>temporal_window_days\<close> among all the attention
  heads, of every type; with the default heads it is 90 days.
\<close>

theorem forward_window_all_heads:
  "heads \<noteq> [] \<Longrightarrow>
     forward_time_window heads = Inr (Max (set (map temporal_window_days heads)))
   \<and> forward_candidates iter g heads nid max_nodes
       = get_forward_nodes iter g nid (Max (set (map temporal_window_days heads))) 5 (max_nodes * 2)
   \<and> forward_time_window default_heads = Inr 90"
proof -
  assume ne: "heads \<noteq> []"
  then obtain h hs where hs: "heads = h # hs" by (cases heads) auto
  have w: "forward_time_window heads = Inr (Max (set (map temporal_window_days heads)))"
    unfolding hs forward_time_window_def by (simp add: foldl_max_Max)
  have d: "forward_time_window default_heads = Inr 90"
    by (simp add: forward_time_window_def default_heads_windows)
  show ?thesis using w d by (simp add: forward_candidates_def)
qed

theorem forward_window_all_heads_witness:
  "default_heads \<noteq> []
   \<and> forward_time_window default_heads = Inr (Max (set (map temporal_window_days default_heads)))
   \<and> Max (set (map temporal_window_days default_heads)) = 90"
proof -
  have ne: "default_heads \<noteq> []" by (simp add: default_heads_def)
  have m: "Max (set (map temporal_window_days default_heads)) = 90"
    by (simp add: default_heads_windows)
  show ?thesis using ne m forward_window_all_heads [OF ne] by simp
qed

section \<open>Properties of the chunked analyzer\<close>

subsection \<open>Causal links\<close>

lemma causal_targets_sequential:
  "causal_targets g documents d targets = Inr rs \<Longrightarrow> (a, b, r) \<in> set rs \<Longrightarrow> r = ''sequential''"
proof (induction targets arbitrary: rs)
  case Nil
  then show ?case by simp
next
  case (Cons t ts)
  then show ?case
    by (auto simp: edges_contains_def split: if_splits sum.splits)
qed

lemma causal_loop_sequential:
  "causal_loop iter g documents todo = Some (Inr rs) \<Longrightarrow> (a, b, r) \<in> set rs \<Longrightarrow> r = ''sequential''"
proof (induction todo arbitrary: rs)
  case Nil
  then show ?case by simp
next
  case (Cons doc todo)
  then show ?case
    by (auto split: option.splits sum.splits dest: causal_targets_sequential)
qed

lemma causal_pair_nodes:
  "nodes causal_pair k =
   (if k = ''lawsuit''
    then Some ((make_node ''lawsuit'' (timedelta_days 10) ''lawsuit'')\<lparr>temporal_index := 1\<rparr>)
    else if k = ''breach''
    then Some ((make_node ''breach'' (timedelta_days 0) ''breach'')\<lparr>temporal_index := 0\<rparr>)
    else None)"
  by (simp add: causal_pair_def causal_edge_def add_edges_def add_nodes_def add_edge_def
      add_node_def make_node_def new_graph_def Let_def get_list_def append_to_def
      insort_index_def bisect_right_def tuple_less_def timedelta_days_def)

lemma causal_pair_edges:
  "get_list (edges causal_pair) k = (if k = ''breach'' then [causal_edge] else [])"
  by (simp add: causal_pair_def causal_edge_def add_edges_def add_nodes_def add_edge_def
      add_node_def make_node_def new_graph_def Let_def get_list_def append_to_def)

lemma causal_pair_forward_breach:
  "bfs_forward causal_pair ''breach'' 5 2592000000000 = Some [''breach'', ''lawsuit'']"
  by (simp add: forward_eval causal_pair_nodes causal_pair_edges causal_edge_def)

lemma causal_pair_forward_lawsuit:
  "bfs_forward causal_pair ''lawsuit'' 5 3456000000000 = Some [''lawsuit'']"
  by (simp add: forward_eval causal_pair_nodes causal_pair_edges causal_edge_def)

text \<open>
  Claim C6 at a concrete chunk. The chunk holds \<^verbatim>\<open>breach\<close> and \<^verbatim>\<open>lawsuit\<close>; the edge
  between them has the relation \<^verbatim>\<open>CAUSAL\<close> and says \<^verbatim>\<open>causal\<close> in its metadata too,
  and the one triple that is emitted carries \<^verbatim>\<open>sequential\<close>.
\<close>

theorem causal_edge_reported_sequential:
  "map relation (get_list (edges causal_pair) ''breach'') = [CAUSAL]
   \<and> map edge_metadata (get_list (edges causal_pair) ''breach'') = [[(''relation_type'', ''causal'')]]
   \<and> map to_node (get_list (edges causal_pair) ''breach'') = [''lawsuit'']
   \<and> get_document causal_pair ''breach'' = Some breach_doc
   \<and> get_document causal_pair ''lawsuit'' = Some lawsuit_doc
   \<and> identify_causal_relationships (\<lambda>xs. xs) causal_pair [breach_doc, lawsuit_doc]
       = Some (Inr [(''breach'', ''lawsuit'', ''sequential'')])"
  by (simp add: identify_causal_relationships_def get_document_def node_to_data_def
      breach_doc_def lawsuit_doc_def edges_contains_def query_eval causal_edge_def
      causal_pair_nodes causal_pair_edges causal_pair_forward_breach causal_pair_forward_lawsuit)

subsection \<open>Carryover size\<close>

lemma length_dict_set: "length (dict_set d k v) \<le> Suc (length d)"
  by (induction d) auto

lemma length_dict_fold:
  "length (foldl (\<lambda>d x. dict_set d (key x) (val x)) d xs) \<le> length d + length xs"
proof (induction xs arbitrary: d)
  case Nil
  show ?case by simp
next
  case (Cons x xs)
  have "length (foldl (\<lambda>d x. dict_set d (key x) (val x)) (dict_set d (key x) (val x)) xs)
          \<le> length (dict_set d (key x) (val x)) + length xs"
    by (rule Cons.IH)
  also have "\<dots> \<le> Suc (length d) + length xs"
    using length_dict_set [of d "key x" "val x"] by simp
  finally show ?case by simp
qed

lemma length_dict_of: "length (dict_of pairs) \<le> length pairs"
  using length_dict_fold [of fst snd "[]" pairs]
  by (simp add: dict_of_def case_prod_unfold)

lemma length_slice_to: "0 \<le> n \<Longrightarrow> int (length (slice_to xs n)) \<le> n"
  by (simp add: slice_to_def)

lemma length_slice_from_neg: "0 < n \<Longrightarrow> int (length (slice_from xs (- n))) \<le> n"
  by (simp add: slice_from_def)

lemma slice_from_zero: "slice_from xs (- 0) = xs"
  by (simp add: slice_from_def)

lemma extract_carryover_bounded:
  assumes e: "0 \<le> max_carryover_events cfg" and n: "0 \<le> max_carryover_entities cfg"
    and c: "0 < max_carryover_chains cfg"
  shows "int (length (critical_events (extract_carryover cfg chunk_result previous_state)))
           \<le> max_carryover_events cfg"
    and "int (length (key_entities (extract_carryover cfg chunk_result previous_state)))
           \<le> max_carryover_entities cfg"
    and "int (length (causal_chains (extract_carryover cfg chunk_result previous_state)))
           \<le> max_carryover_chains cfg"
    and "int (length (attention_scores (extract_carryover cfg chunk_result previous_state)))
           \<le> 10 + max_carryover_events cfg"
    and "open_questions (extract_carryover cfg chunk_result previous_state)
           = open_questions previous_state"
proof -
  let ?events = "slice_to (sort_desc importance
            (critical_events previous_state @ cr_critical_events chunk_result))
            (max_carryover_events cfg)"
  have le: "int (length ?events) \<le> max_carryover_events cfg"
    by (rule length_slice_to [OF e])
  show "int (length (critical_events (extract_carryover cfg chunk_result previous_state)))
           \<le> max_carryover_events cfg"
    using le by (simp add: extract_carryover_def Let_def)
  let ?pairs = "slice_to (sort_desc (\<lambda>x. mentions (snd x))
       (foldl merge_entity (key_entities previous_state) (cr_key_entities chunk_result)))
       (max_carryover_entities cfg)"
  have "int (length (dict_of ?pairs)) \<le> int (length ?pairs)"
    using length_dict_of [of ?pairs] by simp
  also have "\<dots> \<le> max_carryover_entities cfg" by (rule length_slice_to [OF n])
  finally show "int (length (key_entities (extract_carryover cfg chunk_result previous_state)))
           \<le> max_carryover_entities cfg"
    by (simp add: extract_carryover_def Let_def)
  show "int (length (causal_chains (extract_carryover cfg chunk_result previous_state)))
           \<le> max_carryover_chains cfg"
    using length_slice_from_neg [OF c] by (simp add: extract_carryover_def Let_def)
  let ?recent = "foldl (\<lambda>d i. dict_set d i (8 / 10 :: real)) []
                   (slice_from (cr_doc_ids chunk_result) (- 10))"
  have r: "length ?recent \<le> length (slice_from (cr_doc_ids chunk_result) (- 10))"
    using length_dict_fold [of "\<lambda>i. i" "\<lambda>i. 8 / 10 :: real" "[]"] by simp
  have "int (length (slice_from (cr_doc_ids chunk_result) (- 10))) \<le> 10"
    by (rule length_slice_from_neg) simp
  then have r10: "length ?recent \<le> 10" using r by simp
  have "length (foldl (\<lambda>d e. dict_set d (ev_doc_id e) (1 :: real)) ?recent ?events)
          \<le> length ?recent + length ?events"
    by (rule length_dict_fold [of ev_doc_id "\<lambda>e. 1"])
  then show "int (length (attention_scores (extract_carryover cfg chunk_result previous_state)))
           \<le> 10 + max_carryover_events cfg"
    using r10 le by (simp add: extract_carryover_def Let_def)
  show "open_questions (extract_carryover cfg chunk_result previous_state)
           = open_questions previous_state"
    by (simp add: extract_carryover_def Let_def)
qed

lemma analysis_step_bounded:
  assumes e: "0 \<le> max_carryover_events cfg" and n: "0 \<le> max_carryover_entities cfg"
    and c: "0 < max_carryover_chains cfg"
  shows "carryover_within cfg (fst (snd (analysis_step cfg pc sd et s)))"
    and "open_questions (fst (snd (analysis_step cfg pc sd et s))) = open_questions (fst (snd s))"
proof -
  obtain t st td cs where s: "s = (t, st, td, cs)" by (cases s) auto
  note b = extract_carryover_bounded [OF e n c]
  show "carryover_within cfg (fst (snd (analysis_step cfg pc sd et s)))"
    using b(1-4) by (simp add: s analysis_step_def Let_def carryover_within_def)
  show "open_questions (fst (snd (analysis_step cfg pc sd et s))) = open_questions (fst (snd s))"
    using b(5) by (simp add: s analysis_step_def Let_def)
qed

lemma analysis_states_bounded:
  assumes e: "0 \<le> max_carryover_events cfg" and n: "0 \<le> max_carryover_entities cfg"
    and c: "0 < max_carryover_chains cfg"
  shows "carryover_within cfg
           (fst (snd ((analysis_step cfg pc sd et ^^ k) (st, initial_carryover st, 0, []))))
       \<and> open_questions
           (fst (snd ((analysis_step cfg pc sd et ^^ k) (st, initial_carryover st, 0, [])))) = []"
proof (induction k)
  case 0
  show ?case using e n c by (simp add: carryover_within_def initial_carryover_def)
next
  case (Suc k)
  show ?case
    using analysis_step_bounded [OF e n c] Suc by simp
qed

lemma get_size_bounded:
  "carryover_within cfg c \<Longrightarrow> open_questions c = [] \<Longrightarrow>
   int (get_size c) \<le> 2 * max_carryover_events cfg + max_carryover_entities cfg
                       + max_carryover_chains cfg + 10"
  by (simp add: carryover_within_def get_size_def)

lemma final_carryover_bounded:
  assumes e: "0 \<le> max_carryover_events cfg" and n: "0 \<le> max_carryover_entities cfg"
    and c: "0 < max_carryover_chains cfg"
    and f: "final_carryover cfg pc sd st et = Some r"
  shows "int (get_size r) \<le> 2 * max_carryover_events cfg + max_carryover_entities cfg
                       + max_carryover_chains cfg + 10"
proof -
  from f obtain t where w: "while_option (analysis_running et) (analysis_step cfg pc sd et)
          (st, initial_carryover st, 0, []) = Some t" and r: "r = fst (snd t)"
    by (auto simp: final_carryover_def)
  from while_option_stop2 [OF w] obtain k where
    "t = (analysis_step cfg pc sd et ^^ k) (st, initial_carryover st, 0, [])" by blast
  then show ?thesis
    using analysis_states_bounded [OF e n c, where pc = pc and sd = sd and et = et and k = k and st = st]
      get_size_bounded r by blast
qed

text \<open>
  Claim C2 at a concrete configuration. With \<^verbatim>\<open>max_carryover_chains = 0\<close> the trim
  \<^verbatim>\<open>causal_chains[-0:]\<close> keeps every chain: a carryover with one chain and a chunk with
  two give a carryover with three chains, above the configured cap of 0, and the list
  grows with every further chunk. With the cap at 1 the same input keeps the most recent
  chain only. For caps that are not negative and a chain cap of at least 1 the bounds of
  the claim hold for every carryover of a run (\<open>analysis_states_bounded\<close>).
\<close>

theorem chains_cap_zero_keeps_all:
  "max_carryover_chains (default_config\<lparr>max_carryover_chains := 0\<rparr>) = 0
   \<and> causal_chains (extract_carryover (default_config\<lparr>max_carryover_chains := 0\<rparr>)
        two_chain_chunk one_chain_state)
      = [(''contract'', ''amendment'', ''sequential''), (''claim'', ''response'', ''sequential''),
         (''response'', ''settlement'', ''sequential'')]
   \<and> causal_chains (extract_carryover (default_config\<lparr>max_carryover_chains := 1\<rparr>)
        two_chain_chunk one_chain_state)
      = [(''response'', ''settlement'', ''sequential'')]"
  by (simp add: extract_carryover_def Let_def default_config_def two_chain_chunk_def
      one_chain_state_def initial_carryover_def slice_from_def)

section \<open>The timestamp index and duplicate ids\<close>

lemma str_less_irrefl: "\<not> str_less s s"
  by (induction s) auto

lemma str_less_trans: "str_less a b \<Longrightarrow> str_less b c \<Longrightarrow> str_less a c"
proof (induction a b arbitrary: c rule: str_less.induct)
  case 1
  then show ?case by simp
next
  case (2 y ys)
  then show ?case by (cases c) auto
next
  case (3 x xs)
  then show ?case by simp
next
  case (4 x xs y ys)
  then show ?case by (cases c) (auto split: if_splits)
qed

lemma str_less_total: "a \<noteq> b \<Longrightarrow> str_less a b \<or> str_less b a"
proof (induction a b rule: str_less.induct)
  case (4 x xs y ys)
  show ?case
  proof (cases "x = y")
    case True
    then show ?thesis using 4 by auto
  next
    case False
    then have "(of_char x :: nat) \<noteq> of_char y" by simp
    then have "(of_char x :: nat) < of_char y \<or> (of_char y :: nat) < of_char x" by linarith
    then show ?thesis by auto
  qed
qed simp_all

lemma tuple_less_irrefl: "\<not> tuple_less a a"
  by (simp add: tuple_less_def str_less_irrefl)

lemma tuple_less_trans: "tuple_less a b \<Longrightarrow> tuple_less b c \<Longrightarrow> tuple_less a c"
  by (auto simp: tuple_less_def dest: str_less_trans)

lemma tuple_less_total: "a \<noteq> b \<Longrightarrow> tuple_less a b \<or> tuple_less b a"
  using str_less_total [of "snd a" "snd b"]
  by (cases a, cases b) (auto simp: tuple_less_def)

lemma tuple_le_less_trans:
  assumes "tuple_le x y" and "tuple_less y z"
  shows "tuple_less x z"
proof (cases "x = y")
  case True
  then show ?thesis using assms(2) by simp
next
  case False
  then have "tuple_less x y" using tuple_less_total [of x y] assms(1) by (simp add: tuple_le_def)
  then show ?thesis using assms(2) by (rule tuple_less_trans)
qed

lemma tuple_less_le_trans:
  assumes "tuple_less x y" and "tuple_le y z"
  shows "tuple_less x z"
proof (cases "y = z")
  case True
  then show ?thesis using assms(1) by simp
next
  case False
  then have "tuple_less y z" using tuple_less_total [of y z] assms(2) by (simp add: tuple_le_def)
  with assms(1) show ?thesis by (rule tuple_less_trans)
qed

lemma tuple_le_trans:
  assumes "tuple_le x y" and "tuple_le y z"
  shows "tuple_le x z"
  unfolding tuple_le_def
proof
  assume "tuple_less z x"
  then have "tuple_less z y" using assms(1) by (rule tuple_less_le_trans)
  then show False using assms(2) by (simp add: tuple_le_def)
qed

lemma sorted_dropWhile_fails:
  assumes "sorted_wrt tuple_le xs" and up: "\<And>x y. \<not> P x \<Longrightarrow> tuple_le x y \<Longrightarrow> \<not> P y"
    and "x \<in> set (dropWhile P xs)"
  shows "\<not> P x"
  using assms(1,3)
proof (induction xs)
  case Nil
  then show ?case by simp
next
  case (Cons a xs)
  show ?case
  proof (cases "P a")
    case True
    then show ?thesis using Cons by simp
  next
    case False
    then have "x = a \<or> x \<in> set xs" using Cons.prems(2) by simp
    then show ?thesis
    proof
      assume "x = a"
      then show ?thesis using False by simp
    next
      assume "x \<in> set xs"
      then have "tuple_le a x" using Cons.prems(1) by simp
      then show ?thesis using up [OF False] by blast
    qed
  qed
qed

lemma sorted_takeWhile_filter:
  assumes "sorted_wrt tuple_le xs" and "\<And>x y. \<not> P x \<Longrightarrow> tuple_le x y \<Longrightarrow> \<not> P y"
  shows "takeWhile P xs = filter P xs"
  by (rule takeWhile_eq_filter) (rule sorted_dropWhile_fails [OF assms])

lemma sorted_dropWhile_filter:
  assumes "sorted_wrt tuple_le xs" and "\<And>x y. \<not> P x \<Longrightarrow> tuple_le x y \<Longrightarrow> \<not> P y"
  shows "dropWhile P xs = filter (\<lambda>x. \<not> P x) xs"
proof -
  have "filter (\<lambda>x. \<not> P x) xs
      = filter (\<lambda>x. \<not> P x) (takeWhile P xs) @ filter (\<lambda>x. \<not> P x) (dropWhile P xs)"
    by (metis filter_append takeWhile_dropWhile_id)
  moreover have "filter (\<lambda>x. \<not> P x) (takeWhile P xs) = []"
    by (auto simp: filter_empty_conv dest: set_takeWhileD)
  moreover have "filter (\<lambda>x. \<not> P x) (dropWhile P xs) = dropWhile P xs"
  proof -
    have "\<forall>x \<in> set (dropWhile P xs). \<not> P x"
    proof
      fix x assume "x \<in> set (dropWhile P xs)"
      with assms show "\<not> P x" by (rule sorted_dropWhile_fails)
    qed
    then show ?thesis by (simp add: filter_id_conv)
  qed
  ultimately show ?thesis by simp
qed

lemma takeWhile_takeWhile_imp:
  "(\<And>x. P x \<Longrightarrow> Q x) \<Longrightarrow> takeWhile P (takeWhile Q xs) = takeWhile P xs"
  by (induction xs) auto

lemma map_nth_range:
  assumes "b \<le> length xs"
  shows "map (\<lambda>i. f (xs ! i)) [a..<b] = map f (drop a (take b xs))"
proof (rule nth_equalityI)
  show "length (map (\<lambda>i. f (xs ! i)) [a..<b]) = length (map f (drop a (take b xs)))"
    using assms by simp
next
  fix i assume "i < length (map (\<lambda>i. f (xs ! i)) [a..<b])"
  then have i: "i < b - a" by simp
  then show "map (\<lambda>i. f (xs ! i)) [a..<b] ! i = map f (drop a (take b xs)) ! i"
    using assms by (simp add: add.commute)
qed

lemma range_of_sorted:
  assumes srt: "index_sorted xs" and lohi: "tuple_le lo hi"
  shows "map (\<lambda>i. snd (xs ! i)) [bisect_left xs lo ..< bisect_right xs hi]
           = map snd (filter (\<lambda>e. tuple_le lo e \<and> tuple_le e hi) xs)"
proof -
  let ?P1 = "\<lambda>y. tuple_less y lo" and ?P2 = "\<lambda>y. \<not> tuple_less hi y"
  have s: "sorted_wrt tuple_le xs" using srt by (simp add: index_sorted_def)
  have up1: "\<And>x y. \<not> ?P1 x \<Longrightarrow> tuple_le x y \<Longrightarrow> \<not> ?P1 y"
    using tuple_le_less_trans by blast
  have up2: "\<And>x y. \<not> ?P2 x \<Longrightarrow> tuple_le x y \<Longrightarrow> \<not> ?P2 y"
    using tuple_less_le_trans by blast
  have imp: "\<And>x. ?P1 x \<Longrightarrow> ?P2 x"
  proof
    fix x assume "tuple_less x lo" and "tuple_less hi x"
    then have "tuple_less hi lo" by (rule tuple_less_trans [rotated])
    then show False using lohi by (simp add: tuple_le_def)
  qed
  let ?ys = "takeWhile ?P2 xs"
  have ys: "?ys = filter ?P2 xs" by (rule sorted_takeWhile_filter [OF s up2])
  have sy: "sorted_wrt tuple_le ?ys"
    unfolding ys using s by (rule sorted_wrt_filter)
  have bl: "bisect_left xs lo = length (takeWhile ?P1 ?ys)"
    by (simp add: bisect_left_def takeWhile_takeWhile_imp [OF imp])
  have "map (\<lambda>i. snd (xs ! i)) [bisect_left xs lo ..< bisect_right xs hi]
          = map snd (drop (bisect_left xs lo) (take (bisect_right xs hi) xs))"
    by (rule map_nth_range) (simp add: bisect_right_def length_takeWhile_le)
  also have "take (bisect_right xs hi) xs = ?ys"
    by (simp add: bisect_right_def takeWhile_eq_take [symmetric])
  also have "drop (bisect_left xs lo) ?ys = dropWhile ?P1 ?ys"
    unfolding bl by (rule dropWhile_eq_drop [symmetric])
  also have "dropWhile ?P1 ?ys = filter (\<lambda>x. \<not> ?P1 x) ?ys"
    by (rule sorted_dropWhile_filter [OF sy up1])
  also have "\<dots> = filter (\<lambda>e. tuple_le lo e \<and> tuple_le e hi) xs"
    unfolding ys by (simp add: tuple_le_def conj_commute)
  finally show ?thesis .
qed

lemma insort_index_sorted:
  assumes "index_sorted xs"
  shows "index_sorted (insort_index xs x)"
proof -
  let ?P = "\<lambda>y. \<not> tuple_less x y"
  have s: "sorted_wrt tuple_le xs" using assms by (simp add: index_sorted_def)
  have up: "\<And>a b. \<not> ?P a \<Longrightarrow> tuple_le a b \<Longrightarrow> \<not> ?P b"
    using tuple_less_le_trans by blast
  have t: "take (bisect_right xs x) xs = takeWhile ?P xs"
    by (simp add: bisect_right_def takeWhile_eq_take [symmetric])
  have d: "drop (bisect_right xs x) xs = dropWhile ?P xs"
    by (simp add: bisect_right_def dropWhile_eq_drop [symmetric])
  have eq: "insort_index xs x = takeWhile ?P xs @ x # dropWhile ?P xs"
    by (simp add: insort_index_def t d)
  have s1: "sorted_wrt tuple_le (takeWhile ?P xs)"
    using s by (metis sorted_wrt_append takeWhile_dropWhile_id)
  have s2: "sorted_wrt tuple_le (dropWhile ?P xs)"
    using s by (metis sorted_wrt_append takeWhile_dropWhile_id)
  have a: "\<forall>y \<in> set (takeWhile ?P xs). tuple_le y x"
    by (auto simp: tuple_le_def dest: set_takeWhileD)
  have b: "\<forall>y \<in> set (dropWhile ?P xs). tuple_le x y"
  proof
    fix y assume "y \<in> set (dropWhile ?P xs)"
    with s up have "\<not> ?P y" by (rule sorted_dropWhile_fails)
    then have xy: "tuple_less x y" by simp
    show "tuple_le x y"
      unfolding tuple_le_def
    proof
      assume "tuple_less y x"
      with xy have "tuple_less x x" by (rule tuple_less_trans)
      then show False by (simp add: tuple_less_irrefl)
    qed
  qed
  have c: "\<forall>y \<in> set (takeWhile ?P xs). \<forall>z \<in> set (dropWhile ?P xs). tuple_le y z"
    using a b tuple_le_trans by blast
  show ?thesis
    unfolding index_sorted_def eq using s1 s2 a b c by (simp add: sorted_wrt_append)
qed

lemma insort_index_count:
  "count_list (insort_index xs x) y = count_list xs y + (if x = y then 1 else 0)"
proof -
  have "count_list (take n xs @ [x] @ drop n xs) y
      = count_list (take n xs @ drop n xs) y + (if x = y then 1 else 0)" for n
    by (simp add: count_list_append del: append_take_drop_id)
  then show ?thesis by (simp add: insort_index_def)
qed

lemma str_less_empty: "\<not> str_less s []"
  by (cases s) auto

lemma tuple_le_lower_sentinel: "start \<le> t \<Longrightarrow> tuple_le (start, []) (t, i)"
  by (auto simp: tuple_le_def tuple_less_def str_less_empty)

lemma length_insort_index: "length (insort_index xs x) = Suc (length xs)"
  by (simp add: insort_index_def bisect_right_def length_takeWhile_le)

lemma count_in_range_one:
  "R a \<Longrightarrow> count_list xs a \<le> count_list (map snd (filter R xs)) (snd a)"
  by (induction xs) auto

lemma count_in_range_two:
  "R a \<Longrightarrow> R b \<Longrightarrow> a \<noteq> b \<Longrightarrow> snd a = snd b \<Longrightarrow>
   count_list xs a + count_list xs b \<le> count_list (map snd (filter R xs)) (snd a)"
  by (induction xs) auto

lemma duplicate_add_node:
  assumes srt: "index_sorted (timestamp_index g)"
    and present: "nodes g (node_id node) \<noteq> None"
    and old: "(t_old, node_id node) \<in> set (timestamp_index g)"
    and lo: "start_time \<le> t_old" "start_time \<le> timestamp node"
    and hi: "tuple_le (t_old, node_id node) (end_time, replicate 100 (CHR 0xFF))"
            "tuple_le (timestamp node, node_id node) (end_time, replicate 100 (CHR 0xFF))"
  shows "fst (add_node g node) = True"
    and "nodes (snd (add_node g node)) (node_id node)
           = Some (node\<lparr>temporal_index := int (length (timestamp_index g))\<rparr>)"
    and "count_list (timestamp_index (snd (add_node g node))) y
           = count_list (timestamp_index g) y + (if (timestamp node, node_id node) = y then 1 else 0)"
    and "index_sorted (timestamp_index (snd (add_node g node)))"
    and "2 \<le> count_list (get_nodes_in_timerange (snd (add_node g node)) start_time end_time)
                (node_id node)"
proof -
  let ?x = "(timestamp node, node_id node)" and ?a = "(t_old, node_id node)"
  let ?idx = "insort_index (timestamp_index g) ?x"
  let ?lo = "(start_time, [] :: string)" and ?hi = "(end_time, replicate 100 (CHR 0xFF))"
  let ?R = "\<lambda>e. tuple_le ?lo e \<and> tuple_le e ?hi"
  have idx: "timestamp_index (snd (add_node g node)) = ?idx"
    by (simp add: add_node_def Let_def)
  show "fst (add_node g node) = True" by (simp add: add_node_def Let_def)
  show "nodes (snd (add_node g node)) (node_id node)
           = Some (node\<lparr>temporal_index := int (length (timestamp_index g))\<rparr>)"
    by (simp add: add_node_def Let_def length_insort_index)
  show cnt: "\<And>y. count_list (timestamp_index (snd (add_node g node))) y
           = count_list (timestamp_index g) y + (if ?x = y then 1 else 0)"
    unfolding idx by (rule insort_index_count)
  show s': "index_sorted (timestamp_index (snd (add_node g node)))"
    unfolding idx by (rule insort_index_sorted [OF srt])
  have Ra: "?R ?a" using lo(1) hi(1) by (simp add: tuple_le_lower_sentinel)
  have Rx: "?R ?x" using lo(2) hi(2) by (simp add: tuple_le_lower_sentinel)
  have lohi: "tuple_le ?lo ?hi" using Rx tuple_le_trans by blast
  have res: "get_nodes_in_timerange (snd (add_node g node)) start_time end_time
               = map snd (filter ?R ?idx)"
    using range_of_sorted [OF s' [unfolded idx] lohi]
    by (simp add: get_nodes_in_timerange_def idx Let_def)
  have ca: "1 \<le> count_list (timestamp_index g) ?a"
    using old by (metis count_list_0_iff less_one not_le)
  show "2 \<le> count_list (get_nodes_in_timerange (snd (add_node g node)) start_time end_time)
                (node_id node)"
  proof (cases "?a = ?x")
    case True
    have "2 \<le> count_list ?idx ?x"
      using ca True by (simp add: insort_index_count)
    also have "\<dots> \<le> count_list (map snd (filter ?R ?idx)) (snd ?x)"
      by (rule count_in_range_one [of ?R, OF Rx])
    finally show ?thesis by (simp add: res)
  next
    case False
    have "1 \<le> count_list ?idx ?a" using ca by (simp add: insort_index_count)
    moreover have "1 \<le> count_list ?idx ?x" by (simp add: insort_index_count)
    ultimately have "2 \<le> count_list ?idx ?a + count_list ?idx ?x" by simp
    also have "\<dots> \<le> count_list (map snd (filter ?R ?idx)) (snd ?a)"
      by (rule count_in_range_two [of ?R, OF Ra Rx False]) simp
    finally show ?thesis by (simp add: res)
  qed
qed

lemma str_less_replicate: "str_less (replicate n c) (replicate m c) = (n < m)"
proof (induction n arbitrary: m)
  case 0
  show ?case by (cases m) simp_all
next
  case (Suc n)
  show ?case by (cases m) (simp_all add: Suc)
qed

lemma sentinel_less_long_id: "str_less (replicate 100 (CHR 0xFF)) long_id"
  by (simp add: long_id_def str_less_replicate)

lemma long_id_not_less_sentinel: "\<not> str_less long_id (replicate 100 (CHR 0xFF))"
  by (simp add: long_id_def str_less_replicate)

lemma twice_added_index:
  "timestamp_index (twice_added i) = [(timedelta_days 3, i), (timedelta_days 5, i)]"
  by (simp add: twice_added_def once_added_def add_node_def new_graph_def make_node_def Let_def
      insort_index_def bisect_right_def tuple_less_def timedelta_days_def)

lemma sentinel_not_less_contract: "\<not> str_less (replicate 100 (CHR 0xFF)) ''contract''"
proof -
  have "replicate (Suc 99) (CHR 0xFF) = CHR 0xFF # replicate 99 (CHR 0xFF)"
    by (rule replicate_Suc)
  then have "replicate 100 (CHR 0xFF) = CHR 0xFF # replicate 99 (CHR 0xFF)" by simp
  then show ?thesis by simp
qed

text \<open>
  Claim C10 at a concrete graph. The id \<open>long_id\<close> is added at day 3 and again at day 5;
  the second call returns true and the index holds both pairs. The range from day 3 to
  day 5 covers both timestamps, yet \<^verbatim>\<open>get_nodes_in_timerange\<close> returns the id once: the
  pair at day 5 compares above the upper sentinel \<^verbatim>\<open>(end_time, chr(255)*100)\<close>. With the
  id \<^verbatim>\<open>contract\<close> the same calls return the id twice; \<open>duplicate_add_node\<close> proves
  that in general for entries that do not compare above the sentinel.
\<close>

theorem duplicate_at_range_end_dropped:
  "nodes (once_added long_id) long_id \<noteq> None
   \<and> fst (add_node (once_added long_id) (make_node long_id (timedelta_days 5) ''second'')) = True
   \<and> timestamp_index (twice_added long_id)
        = [(timedelta_days 3, long_id), (timedelta_days 5, long_id)]
   \<and> get_nodes_in_timerange (twice_added long_id) (timedelta_days 3) (timedelta_days 5)
        = [long_id]
   \<and> get_nodes_in_timerange (twice_added ''contract'') (timedelta_days 3) (timedelta_days 5)
        = [''contract'', ''contract'']"
proof -
  have a: "nodes (once_added long_id) long_id \<noteq> None"
    by (simp add: once_added_def add_node_def Let_def make_node_def)
  have b: "fst (add_node (once_added long_id) (make_node long_id (timedelta_days 5) ''second'')) = True"
    by (simp add: add_node_def Let_def)
  have c: "get_nodes_in_timerange (twice_added long_id) (timedelta_days 3) (timedelta_days 5)
        = [long_id]"
    by (simp add: get_nodes_in_timerange_def twice_added_index bisect_left_def bisect_right_def
        tuple_less_def str_less_empty sentinel_less_long_id timedelta_days_def)
  have d: "get_nodes_in_timerange (twice_added ''contract'') (timedelta_days 3) (timedelta_days 5)
        = [''contract'', ''contract'']"
    by (simp add: get_nodes_in_timerange_def twice_added_index bisect_left_def bisect_right_def
        tuple_less_def timedelta_days_def sentinel_not_less_contract)
  show ?thesis using a b c d twice_added_index by simp
qed

end
